theory Spec2Isabelle
  imports Main "HOL-Library.Signed_Division"
begin

section \<open>The grid map\<close>

text \<open>
  The grid object of the map script: a square grid of \<open>mapSize\<close> rows, each cell a
  JavaScript object \<open>{type, weight}\<close>, with one start and one end coordinate.
  A coordinate is the two-element array \<open>[x, y]\<close>; \<open>x\<close> indexes the outer array of
  \<open>grid\<close>, \<open>y\<close> the inner one. The weights the script assigns are integers
  (\<open>Math.round\<close>), so they are modelled as \<open>int\<close>.
\<close>

type_synonym coord = "int \<times> int"

record cell =
  type :: string
  weight :: int

record grid_map =
  mapSize :: int
  startCell :: coord
  endCell :: coord
  grid :: "cell list list"

text \<open>
  \<open>resetGrid\<close> always builds \<open>mapSize\<close> rows of \<open>mapSize\<close> cells; reading
  \<open>grid[x][y]\<close> inside the bounds is defined exactly on such grids.
\<close>

definition wf_map :: "grid_map \<Rightarrow> bool" where
  "wf_map m \<longleftrightarrow>
     0 \<le> mapSize m \<and> length (grid m) = nat (mapSize m) \<and>
     list_all (\<lambda>row. length row = nat (mapSize m)) (grid m)"

definition isBound :: "grid_map \<Rightarrow> int \<Rightarrow> int \<Rightarrow> bool" where
  "isBound m x y \<longleftrightarrow> x \<ge> 0 \<and> y \<ge> 0 \<and> x < mapSize m \<and> y < mapSize m"

definition validate :: "grid_map \<Rightarrow> int \<Rightarrow> int \<Rightarrow> bool" where
  "validate m x y \<longleftrightarrow> isBound m x y \<and> type (grid m ! nat x ! nat y) \<noteq> ''obstacle''"

section \<open>The priority queue\<close>

text \<open>
  What JavaScript throws: a string (\<open>throw "Error: ..."\<close>), or the \<open>TypeError\<close> the
  engine raises when a property of \<open>undefined\<close> is read.
\<close>

datatype js_error = Thrown string | TypeError

abbreviation EmptyQueue :: js_error where
  "EmptyQueue \<equiv> Thrown ''Error: No elements in Queue''"

record ('a, 'p) QueueElement =
  element :: 'a
  priority :: 'p

record ('a, 'p) PriorityQueue =
  queue :: "('a, 'p) QueueElement list"

definition new_PriorityQueue :: "('a, 'p) PriorityQueue" where
  "new_PriorityQueue = \<lparr>queue = []\<rparr>"

definition isEmpty :: "('a, 'p) PriorityQueue \<Rightarrow> bool" where
  "isEmpty q \<longleftrightarrow> length (queue q) = 0"

text \<open>
  The scan of \<open>enqueue\<close>: the item is spliced in before the first stored element whose
  priority is strictly greater, and pushed at the end when there is none.
\<close>

fun enqueue_scan ::
  "('a, 'p::linorder) QueueElement list \<Rightarrow> ('a, 'p) QueueElement \<Rightarrow> ('a, 'p) QueueElement list"
where
  "enqueue_scan [] item = [item]"
| "enqueue_scan (e # es) item =
     (if priority e > priority item then item # e # es else e # enqueue_scan es item)"

definition enqueue ::
  "('a, 'p::linorder) PriorityQueue \<Rightarrow> 'a \<Rightarrow> 'p \<Rightarrow> ('a, 'p) PriorityQueue"
where
  "enqueue q el p = q\<lparr>queue := enqueue_scan (queue q) \<lparr>element = el, priority = p\<rparr>\<rparr>"

text \<open>
  \<open>dequeue\<close> returns what the call produces (the thrown error, or the element shifted
  off the front) together with the queue after the call.
\<close>

definition dequeue ::
  "('a, 'p) PriorityQueue \<Rightarrow> (js_error + ('a, 'p) QueueElement) \<times> ('a, 'p) PriorityQueue"
where
  "dequeue q =
     (if isEmpty q then (Inl EmptyQueue, q)
      else (Inr (hd (queue q)), q\<lparr>queue := tl (queue q)\<rparr>))"

section \<open>Utilities of the pathfinder\<close>

text \<open>
  The visited map is keyed by the string \<open>[x,y].toString()\<close>, which is injective on
  integer pairs, so the model keys it by the coordinate. The stored value is the cell the
  search came from, or the empty array for the start cell.
\<close>

datatype origin = NoOrigin | From coord

type_synonym visited_map = "coord \<rightharpoonup> origin"

definition visitCell :: "grid_map \<Rightarrow> int \<Rightarrow> int \<Rightarrow> visited_map \<Rightarrow> bool" where
  "visitCell m x y visited \<longleftrightarrow> validate m x y \<and> \<not> (x, y) \<in> dom visited"

definition equals :: "coord \<Rightarrow> coord \<Rightarrow> bool" where
  "equals c1 c2 \<longleftrightarrow> fst c1 = fst c2 \<and> snd c1 = snd c2"

definition heuristic :: "coord \<Rightarrow> coord \<Rightarrow> int" where
  "heuristic c1 c2 = \<bar>fst c2 - fst c1\<bar> + \<bar>snd c2 - snd c1\<bar>"

definition findCost :: "cell list list \<Rightarrow> coord \<Rightarrow> int" where
  "findCost g neighbor = weight (g ! nat (fst neighbor) ! nat (snd neighbor))"

text \<open>
  \<open>%\<close> of JavaScript is the remainder of truncated division, \<open>smod\<close> on \<open>int\<close>.
\<close>

definition findNeighbors :: "grid_map \<Rightarrow> int \<Rightarrow> int \<Rightarrow> visited_map \<Rightarrow> coord list" where
  "findNeighbors m x y visited =
     (let neighbors = [];
          neighbors = (if visitCell m (x - 1) y visited then neighbors @ [(x - 1, y)] else neighbors);
          neighbors = (if visitCell m (x + 1) y visited then neighbors @ [(x + 1, y)] else neighbors);
          neighbors = (if visitCell m x (y - 1) visited then neighbors @ [(x, y - 1)] else neighbors);
          neighbors = (if visitCell m x (y + 1) visited then neighbors @ [(x, y + 1)] else neighbors)
      in if (x + y) smod 2 = 0 then rev neighbors else neighbors)"

section \<open>Path reconstruction\<close>

text \<open>
  The \<open>while\<close> loop of \<open>pathReconstruct\<close>. \<open>current\<close> starts at the end cell; each
  round pushes it and replaces it by \<open>visited.get(current.toString())\<close>. When that
  lookup gives \<open>undefined\<close>, the next loop test reads \<open>undefined[0]\<close> and the engine
  raises a \<open>TypeError\<close>. When it gives the empty array stored for the start cell, the
  test \<open>equals\<close> is false, the empty array is pushed, its key is the empty string, which
  no coordinate has, and the test after that raises the same \<open>TypeError\<close>. The loop
  has no bound, so it is a partial function: \<open>None\<close> is a loop that never ends.
  The calls to \<open>toggleCell\<close> only change the page and are left out.
\<close>

partial_function (option) pathReconstruct_while ::
  "visited_map \<Rightarrow> grid_map \<Rightarrow> coord \<Rightarrow> coord list \<Rightarrow> (js_error + coord list) option"
where
  "pathReconstruct_while visited m current endPath =
     (if \<not> equals current (startCell m) then
        (case visited current of
           None \<Rightarrow> Some (Inl TypeError)
         | Some NoOrigin \<Rightarrow> Some (Inl TypeError)
         | Some (From c) \<Rightarrow> pathReconstruct_while visited m c (endPath @ [current]))
      else Some (Inr (endPath @ [startCell m])))"

declare pathReconstruct_while.simps [code]

definition pathReconstruct :: "visited_map \<Rightarrow> grid_map \<Rightarrow> (js_error + coord list) option" where
  "pathReconstruct visited m = pathReconstruct_while visited m (endCell m) []"

section \<open>Breadth-first search\<close>

record bfs_state =
  bfs_frontier :: "coord list"
  bfs_visited :: visited_map

definition bfs_init :: "grid_map \<Rightarrow> bfs_state" where
  "bfs_init m = \<lparr>bfs_frontier = [startCell m], bfs_visited = [startCell m \<mapsto> NoOrigin]\<rparr>"

text \<open>The \<open>for\<close> loop over the neighbors: push, then mark visited with the current cell.\<close>

primrec bfs_for :: "coord \<Rightarrow> coord list \<Rightarrow> bfs_state \<Rightarrow> bfs_state" where
  "bfs_for currentCell [] s = s"
| "bfs_for currentCell (nb # nbs) s =
     bfs_for currentCell nbs
       (s\<lparr>bfs_frontier := bfs_frontier s @ [nb],
          bfs_visited := (bfs_visited s)(nb \<mapsto> From currentCell)\<rparr>)"

text \<open>
  One call of the interval callback with a non-empty frontier (its \<open>else\<close> branch).
  On an empty frontier the callback takes the other branch, which ends the run.
\<close>

definition bfs_step :: "grid_map \<Rightarrow> bfs_state \<Rightarrow> bfs_state" where
  "bfs_step m s =
     (case bfs_frontier s of
        [] \<Rightarrow> s
      | currentCell # rest \<Rightarrow>
          if equals currentCell (endCell m) then s\<lparr>bfs_frontier := []\<rparr>
          else bfs_for currentCell
                 (findNeighbors m (fst currentCell) (snd currentCell) (bfs_visited s))
                 (s\<lparr>bfs_frontier := rest\<rparr>))"

section \<open>Dijkstra and A*\<close>

record search_state =
  frontier :: "(coord, int) PriorityQueue"
  visited :: visited_map
  cumulatedCost :: "coord \<rightharpoonup> int"

definition search_init :: "grid_map \<Rightarrow> search_state" where
  "search_init m =
     \<lparr>frontier = enqueue new_PriorityQueue (startCell m) 0,
      visited = [startCell m \<mapsto> NoOrigin],
      cumulatedCost = [startCell m \<mapsto> 0]\<rparr>"

text \<open>
  The \<open>for\<close> loop of \<open>dijkstra\<close>. \<open>cumulatedCost.get\<close> of the current cell is
  \<open>undefined\<close> when the cell has no recorded cost, and the sum is then not a number;
  the model has integers only and gives \<open>None\<close> there. No run reaches it: every cell
  in the frontier has a recorded cost.
\<close>

primrec dijkstra_for ::
  "grid_map \<Rightarrow> coord \<Rightarrow> coord list \<Rightarrow> search_state \<Rightarrow> search_state option"
where
  "dijkstra_for m currentCell [] s = Some s"
| "dijkstra_for m currentCell (nb # nbs) s =
     (case cumulatedCost s currentCell of
        None \<Rightarrow> None
      | Some c \<Rightarrow>
          let newCost = c + findCost (grid m) nb in
          if nb \<notin> dom (cumulatedCost s) \<or> newCost < the (cumulatedCost s nb) then
            dijkstra_for m currentCell nbs
              (s\<lparr>frontier := enqueue (frontier s) nb newCost,
                 cumulatedCost := (cumulatedCost s)(nb \<mapsto> newCost),
                 visited := (visited s)(nb \<mapsto> From currentCell)\<rparr>)
          else dijkstra_for m currentCell nbs s)"

text \<open>
  One call of the interval callback of \<open>dijkstra\<close> with a non-empty frontier. The
  callback tests \<open>isEmpty\<close> first, so \<open>dequeue\<close> does not throw there; the model gives
  \<open>None\<close> for a call on an empty frontier.
\<close>

definition dijkstra_step :: "grid_map \<Rightarrow> search_state \<Rightarrow> search_state option" where
  "dijkstra_step m s =
     (case dequeue (frontier s) of
        (Inl err, q) \<Rightarrow> None
      | (Inr e, q) \<Rightarrow>
          let currentCell = element e in
          if equals currentCell (endCell m) then Some (s\<lparr>frontier := new_PriorityQueue\<rparr>)
          else dijkstra_for m currentCell
                 (findNeighbors m (fst currentCell) (snd currentCell) (visited s))
                 (s\<lparr>frontier := q\<rparr>))"

text \<open>The same loop in \<open>astar\<close>: the priority adds the Manhattan distance to the end cell.\<close>

primrec astar_for ::
  "grid_map \<Rightarrow> coord \<Rightarrow> coord list \<Rightarrow> search_state \<Rightarrow> search_state option"
where
  "astar_for m currentCell [] s = Some s"
| "astar_for m currentCell (nb # nbs) s =
     (case cumulatedCost s currentCell of
        None \<Rightarrow> None
      | Some c \<Rightarrow>
          let newCost = c + findCost (grid m) nb in
          if nb \<notin> dom (cumulatedCost s) \<or> newCost < the (cumulatedCost s nb) then
            let priority = newCost + heuristic (endCell m) nb in
            astar_for m currentCell nbs
              (s\<lparr>frontier := enqueue (frontier s) nb priority,
                 cumulatedCost := (cumulatedCost s)(nb \<mapsto> newCost),
                 visited := (visited s)(nb \<mapsto> From currentCell)\<rparr>)
          else astar_for m currentCell nbs s)"

definition astar_step :: "grid_map \<Rightarrow> search_state \<Rightarrow> search_state option" where
  "astar_step m s =
     (case dequeue (frontier s) of
        (Inl err, q) \<Rightarrow> None
      | (Inr e, q) \<Rightarrow>
          let currentCell = element e in
          if equals currentCell (endCell m) then Some (s\<lparr>frontier := new_PriorityQueue\<rparr>)
          else astar_for m currentCell
                 (findNeighbors m (fst currentCell) (snd currentCell) (visited s))
                 (s\<lparr>frontier := q\<rparr>))"

section \<open>The interval loops\<close>

text \<open>
  \<open>setInterval\<close> calls the callback again and again until the callback finds the
  frontier empty and clears the interval. Each loop below is that iteration, up to the
  state in which the frontier is empty. It always stops: a call with a non-empty frontier
  takes one cell out of the frontier, and every cell it puts in is a valid cell of the
  grid that leaves the finite set of unvisited cells.
\<close>

definition unvisited :: "grid_map \<Rightarrow> visited_map \<Rightarrow> coord set" where
  "unvisited m v = {c. validate m (fst c) (snd c) \<and> c \<notin> dom v}"

lemma finite_unvisited: "finite (unvisited m v)"
proof -
  have "unvisited m v \<subseteq> {0..<mapSize m} \<times> {0..<mapSize m}"
    by (auto simp: unvisited_def validate_def isBound_def)
  then show ?thesis by (rule finite_subset) simp
qed

lemma unvisited_upd:
  "c \<in> unvisited m v \<Longrightarrow> card (unvisited m (v(c \<mapsto> x))) < card (unvisited m v)"
proof -
  assume c: "c \<in> unvisited m v"
  have "unvisited m (v(c \<mapsto> x)) = unvisited m v - {c}"
    by (auto simp: unvisited_def)
  with c show ?thesis
    using card_Diff1_less [OF finite_unvisited c] by simp
qed

lemma findNeighbors_sub: "set (findNeighbors m x y v) \<subseteq> unvisited m v"
  by (auto simp: findNeighbors_def visitCell_def unvisited_def Let_def)

lemma findNeighbors_distinct: "distinct (findNeighbors m x y v)"
  by (auto simp: findNeighbors_def Let_def)

lemma length_enqueue_scan: "length (enqueue_scan es item) = Suc (length es)"
  by (induction es) auto

definition bfs_measure :: "grid_map \<Rightarrow> bfs_state \<Rightarrow> nat" where
  "bfs_measure m s = 2 * card (unvisited m (bfs_visited s)) + length (bfs_frontier s)"

lemma bfs_for_measure:
  "distinct nbs \<Longrightarrow> set nbs \<subseteq> unvisited m (bfs_visited s) \<Longrightarrow>
   bfs_measure m (bfs_for c nbs s) \<le> bfs_measure m s"
proof (induction nbs arbitrary: s)
  case Nil
  then show ?case by simp
next
  case (Cons nb nbs)
  let ?s = "s\<lparr>bfs_frontier := bfs_frontier s @ [nb], bfs_visited := (bfs_visited s)(nb \<mapsto> From c)\<rparr>"
  have nb: "nb \<in> unvisited m (bfs_visited s)" using Cons.prems by simp
  have sub: "set nbs \<subseteq> unvisited m (bfs_visited ?s)"
    using Cons.prems by (auto simp: unvisited_def)
  have "bfs_measure m (bfs_for c nbs ?s) \<le> bfs_measure m ?s"
    using Cons.IH [OF _ sub] Cons.prems by simp
  also have "\<dots> \<le> bfs_measure m s"
    using unvisited_upd [OF nb, of "From c"] by (simp add: bfs_measure_def)
  finally show ?case by simp
qed

lemma bfs_step_measure:
  "bfs_frontier s \<noteq> [] \<Longrightarrow> bfs_measure m (bfs_step m s) < bfs_measure m s"
proof -
  assume "bfs_frontier s \<noteq> []"
  then obtain c rest where f: "bfs_frontier s = c # rest" by (cases "bfs_frontier s") auto
  show ?thesis
  proof (cases "equals c (endCell m)")
    case True
    with f show ?thesis by (simp add: bfs_step_def bfs_measure_def)
  next
    case False
    let ?s = "s\<lparr>bfs_frontier := rest\<rparr>"
    have "bfs_measure m (bfs_for c (findNeighbors m (fst c) (snd c) (bfs_visited s)) ?s) \<le> bfs_measure m ?s"
      using bfs_for_measure [of "findNeighbors m (fst c) (snd c) (bfs_visited s)" m ?s c]
        findNeighbors_sub [of m "fst c" "snd c" "bfs_visited s"] findNeighbors_distinct
      by simp
    also have "\<dots> < bfs_measure m s" using f by (simp add: bfs_measure_def)
    finally show ?thesis using f False by (simp add: bfs_step_def)
  qed
qed

function bfs_loop :: "grid_map \<Rightarrow> bfs_state \<Rightarrow> bfs_state" where
  "bfs_loop m s = (if length (bfs_frontier s) = 0 then s else bfs_loop m (bfs_step m s))"
  by pat_completeness auto
termination
  by (relation "measure (\<lambda>(m, s). bfs_measure m s)") (auto simp: bfs_step_measure)

declare bfs_loop.simps [simp del]

definition search_measure :: "grid_map \<Rightarrow> search_state \<Rightarrow> nat" where
  "search_measure m s = 2 * card (unvisited m (visited s)) + length (queue (frontier s))"

lemma search_measure_admit:
  "nb \<in> unvisited m (visited s) \<Longrightarrow>
   search_measure m (s\<lparr>frontier := enqueue (frontier s) nb p,
                       cumulatedCost := cc,
                       visited := (visited s)(nb \<mapsto> From c)\<rparr>) \<le> search_measure m s"
  using unvisited_upd [of nb m "visited s" "From c"]
  by (simp add: search_measure_def enqueue_def length_enqueue_scan)

lemma unvisited_admit:
  "set nbs \<subseteq> unvisited m (visited s) \<Longrightarrow> nb \<notin> set nbs \<Longrightarrow>
   set nbs \<subseteq> unvisited m (visited (s\<lparr>frontier := f, cumulatedCost := cc,
                                       visited := (visited s)(nb \<mapsto> From c)\<rparr>))"
  by (auto simp: unvisited_def)

lemma dijkstra_for_measure:
  "distinct nbs \<Longrightarrow> set nbs \<subseteq> unvisited m (visited s) \<Longrightarrow>
   dijkstra_for m c nbs s = Some s' \<Longrightarrow> search_measure m s' \<le> search_measure m s"
proof (induction nbs arbitrary: s)
  case Nil
  then show ?case by simp
next
  case (Cons nb nbs)
  from Cons.prems(3) obtain k where k: "cumulatedCost s c = Some k"
    by (cases "cumulatedCost s c") auto
  let ?new = "k + findCost (grid m) nb"
  let ?s = "s\<lparr>frontier := enqueue (frontier s) nb ?new,
               cumulatedCost := (cumulatedCost s)(nb \<mapsto> ?new),
               visited := (visited s)(nb \<mapsto> From c)\<rparr>"
  show ?case
  proof (cases "nb \<notin> dom (cumulatedCost s) \<or> ?new < the (cumulatedCost s nb)")
    case True
    then have run: "dijkstra_for m c nbs ?s = Some s'"
      using Cons.prems(3) k by (simp add: Let_def)
    have sub: "set nbs \<subseteq> unvisited m (visited ?s)"
      using Cons.prems(1,2) by (intro unvisited_admit) auto
    have "search_measure m s' \<le> search_measure m ?s"
      using Cons.IH [OF _ sub run] Cons.prems(1) by simp
    also have "\<dots> \<le> search_measure m s"
      using Cons.prems(2) by (intro search_measure_admit) simp
    finally show ?thesis .
  next
    case False
    then have run: "dijkstra_for m c nbs s = Some s'"
      using Cons.prems(3) k by (simp add: Let_def)
    show ?thesis using Cons.IH [OF _ _ run] Cons.prems(1,2) by simp
  qed
qed

lemma dijkstra_step_Cons:
  "queue (frontier s) = e # es \<Longrightarrow>
   dijkstra_step m s =
     (if equals (element e) (endCell m) then Some (s\<lparr>frontier := new_PriorityQueue\<rparr>)
      else dijkstra_for m (element e)
             (findNeighbors m (fst (element e)) (snd (element e)) (visited s))
             (s\<lparr>frontier := (frontier s)\<lparr>queue := es\<rparr>\<rparr>))"
  by (simp add: dijkstra_step_def dequeue_def isEmpty_def Let_def)

lemma dijkstra_step_measure:
  assumes "\<not> isEmpty (frontier s)" and "dijkstra_step m s = Some s'"
  shows "search_measure m s' < search_measure m s"
proof -
  from assms(1) obtain e es where f: "queue (frontier s) = e # es"
    by (cases "queue (frontier s)") (auto simp: isEmpty_def)
  let ?c = "element e"
  let ?s = "s\<lparr>frontier := (frontier s)\<lparr>queue := es\<rparr>\<rparr>"
  have pop: "search_measure m ?s < search_measure m s"
    using f by (simp add: search_measure_def)
  show ?thesis
  proof (cases "equals ?c (endCell m)")
    case True
    then have "s' = s\<lparr>frontier := new_PriorityQueue\<rparr>"
      using assms(2) dijkstra_step_Cons [OF f, of m] by simp
    then show ?thesis using f by (simp add: search_measure_def new_PriorityQueue_def)
  next
    case False
    then have run: "dijkstra_for m ?c (findNeighbors m (fst ?c) (snd ?c) (visited ?s)) ?s = Some s'"
      using assms(2) dijkstra_step_Cons [OF f, of m] by simp
    have "search_measure m s' \<le> search_measure m ?s"
      by (rule dijkstra_for_measure [OF findNeighbors_distinct findNeighbors_sub run])
    with pop show ?thesis by simp
  qed
qed

function dijkstra_loop :: "grid_map \<Rightarrow> search_state \<Rightarrow> search_state option" where
  "dijkstra_loop m s =
     (if isEmpty (frontier s) then Some s
      else (case dijkstra_step m s of None \<Rightarrow> None | Some s' \<Rightarrow> dijkstra_loop m s'))"
  by pat_completeness auto
termination
  by (relation "measure (\<lambda>(m, s). search_measure m s)") (auto simp: dijkstra_step_measure)

declare dijkstra_loop.simps [simp del]

lemma astar_for_measure:
  "distinct nbs \<Longrightarrow> set nbs \<subseteq> unvisited m (visited s) \<Longrightarrow>
   astar_for m c nbs s = Some s' \<Longrightarrow> search_measure m s' \<le> search_measure m s"
proof (induction nbs arbitrary: s)
  case Nil
  then show ?case by simp
next
  case (Cons nb nbs)
  from Cons.prems(3) obtain k where k: "cumulatedCost s c = Some k"
    by (cases "cumulatedCost s c") auto
  let ?new = "k + findCost (grid m) nb"
  let ?s = "s\<lparr>frontier := enqueue (frontier s) nb (?new + heuristic (endCell m) nb),
               cumulatedCost := (cumulatedCost s)(nb \<mapsto> ?new),
               visited := (visited s)(nb \<mapsto> From c)\<rparr>"
  show ?case
  proof (cases "nb \<notin> dom (cumulatedCost s) \<or> ?new < the (cumulatedCost s nb)")
    case True
    then have run: "astar_for m c nbs ?s = Some s'"
      using Cons.prems(3) k by (simp add: Let_def)
    have sub: "set nbs \<subseteq> unvisited m (visited ?s)"
      using Cons.prems(1,2) by (intro unvisited_admit) auto
    have "search_measure m s' \<le> search_measure m ?s"
      using Cons.IH [OF _ sub run] Cons.prems(1) by simp
    also have "\<dots> \<le> search_measure m s"
      using Cons.prems(2) by (intro search_measure_admit) simp
    finally show ?thesis .
  next
    case False
    then have run: "astar_for m c nbs s = Some s'"
      using Cons.prems(3) k by (simp add: Let_def)
    show ?thesis using Cons.IH [OF _ _ run] Cons.prems(1,2) by simp
  qed
qed

lemma astar_step_Cons:
  "queue (frontier s) = e # es \<Longrightarrow>
   astar_step m s =
     (if equals (element e) (endCell m) then Some (s\<lparr>frontier := new_PriorityQueue\<rparr>)
      else astar_for m (element e)
             (findNeighbors m (fst (element e)) (snd (element e)) (visited s))
             (s\<lparr>frontier := (frontier s)\<lparr>queue := es\<rparr>\<rparr>))"
  by (simp add: astar_step_def dequeue_def isEmpty_def Let_def)

lemma astar_step_measure:
  assumes "\<not> isEmpty (frontier s)" and "astar_step m s = Some s'"
  shows "search_measure m s' < search_measure m s"
proof -
  from assms(1) obtain e es where f: "queue (frontier s) = e # es"
    by (cases "queue (frontier s)") (auto simp: isEmpty_def)
  let ?c = "element e"
  let ?s = "s\<lparr>frontier := (frontier s)\<lparr>queue := es\<rparr>\<rparr>"
  have pop: "search_measure m ?s < search_measure m s"
    using f by (simp add: search_measure_def)
  show ?thesis
  proof (cases "equals ?c (endCell m)")
    case True
    then have "s' = s\<lparr>frontier := new_PriorityQueue\<rparr>"
      using assms(2) astar_step_Cons [OF f, of m] by simp
    then show ?thesis using f by (simp add: search_measure_def new_PriorityQueue_def)
  next
    case False
    then have run: "astar_for m ?c (findNeighbors m (fst ?c) (snd ?c) (visited ?s)) ?s = Some s'"
      using assms(2) astar_step_Cons [OF f, of m] by simp
    have "search_measure m s' \<le> search_measure m ?s"
      by (rule astar_for_measure [OF findNeighbors_distinct findNeighbors_sub run])
    with pop show ?thesis by simp
  qed
qed

function astar_loop :: "grid_map \<Rightarrow> search_state \<Rightarrow> search_state option" where
  "astar_loop m s =
     (if isEmpty (frontier s) then Some s
      else (case astar_step m s of None \<Rightarrow> None | Some s' \<Rightarrow> astar_loop m s'))"
  by pat_completeness auto
termination
  by (relation "measure (\<lambda>(m, s). search_measure m s)") (auto simp: astar_step_measure)

declare astar_loop.simps [simp del]

section \<open>The three searches\<close>

text \<open>
  A whole run: the initial state, the interval loop, and the path reconstruction that the
  callback does on the empty frontier.
\<close>

definition bfs :: "grid_map \<Rightarrow> (js_error + coord list) option" where
  "bfs m = pathReconstruct (bfs_visited (bfs_loop m (bfs_init m))) m"

definition dijkstra :: "grid_map \<Rightarrow> (js_error + coord list) option" where
  "dijkstra m =
     (case dijkstra_loop m (search_init m) of
        None \<Rightarrow> None
      | Some s \<Rightarrow> pathReconstruct (visited s) m)"

definition astar :: "grid_map \<Rightarrow> (js_error + coord list) option" where
  "astar m =
     (case astar_loop m (search_init m) of
        None \<Rightarrow> None
      | Some s \<Rightarrow> pathReconstruct (visited s) m)"

section \<open>The pushes of a breadth-first run\<close>

text \<open>
  The coordinates that one callback of \<open>bfs\<close> pushes into the frontier
  (\<open>frontier.push(neighbors[i])\<close> for every \<open>i\<close>), and the coordinates pushed by all
  callbacks from a state on, in the order of the pushes.
\<close>

definition bfs_step_pushes :: "grid_map \<Rightarrow> bfs_state \<Rightarrow> coord list" where
  "bfs_step_pushes m s =
     (case bfs_frontier s of
        [] \<Rightarrow> []
      | currentCell # rest \<Rightarrow>
          if equals currentCell (endCell m) then []
          else findNeighbors m (fst currentCell) (snd currentCell) (bfs_visited s))"

function bfs_pushes :: "grid_map \<Rightarrow> bfs_state \<Rightarrow> coord list" where
  "bfs_pushes m s =
     (if length (bfs_frontier s) = 0 then []
      else bfs_step_pushes m s @ bfs_pushes m (bfs_step m s))"
  by pat_completeness auto
termination
  by (relation "measure (\<lambda>(m, s). bfs_measure m s)") (auto simp: bfs_step_measure)

declare bfs_pushes.simps [simp del]

text \<open>What holds of the frontier in every state of a breadth-first run.\<close>

definition bfs_frontier_inv :: "bfs_state \<Rightarrow> bool" where
  "bfs_frontier_inv s \<longleftrightarrow>
     distinct (bfs_frontier s) \<and> set (bfs_frontier s) \<subseteq> dom (bfs_visited s)"

section \<open>Sequences of queue calls\<close>

text \<open>
  A caller of the queue makes \<open>enqueue\<close> and \<open>dequeue\<close> calls in some order.
  \<open>run_calls\<close> makes them on a queue and collects what each \<open>dequeue\<close> produced (a
  thrown error leaves the queue as it was, and the caller goes on); \<open>returned\<close> keeps
  the elements that were returned.
\<close>

datatype ('a, 'p) queue_call = Enqueue 'a 'p | Dequeue

fun run_calls ::
  "('a, 'p::linorder) queue_call list \<Rightarrow> ('a, 'p) PriorityQueue \<Rightarrow>
   (js_error + ('a, 'p) QueueElement) list \<times> ('a, 'p) PriorityQueue"
where
  "run_calls [] q = ([], q)"
| "run_calls (Enqueue el p # cs) q = run_calls cs (enqueue q el p)"
| "run_calls (Dequeue # cs) q =
     (let (r, q') = dequeue q; (rs, q'') = run_calls cs q' in (r # rs, q''))"

fun returned :: "(js_error + 'e) list \<Rightarrow> 'e list" where
  "returned [] = []"
| "returned (Inl err # rs) = returned rs"
| "returned (Inr e # rs) = e # returned rs"

text \<open>
  The contract of the queue in the words of the specification, as a second model to
  compare with: the stored elements are kept in the order of their \<open>enqueue\<close> calls;
  \<open>dequeue\<close> fails on an empty store, and otherwise removes and returns an element of
  the lowest priority, the first inserted among those of that priority.
\<close>

definition spec_enqueue ::
  "('a, 'p) QueueElement list \<Rightarrow> 'a \<Rightarrow> 'p \<Rightarrow> ('a, 'p) QueueElement list"
where
  "spec_enqueue xs el p = xs @ [\<lparr>element = el, priority = p\<rparr>]"

definition spec_dequeue ::
  "('a, 'p::linorder) QueueElement list \<Rightarrow>
   (js_error + ('a, 'p) QueueElement) \<times> ('a, 'p) QueueElement list"
where
  "spec_dequeue xs =
     (if xs = [] then (Inl EmptyQueue, xs)
      else let lowest = Min (priority ` set xs);
               e = hd (filter (\<lambda>x. priority x = lowest) xs)
           in (Inr e, remove1 e xs))"

fun spec_calls ::
  "('a, 'p::linorder) queue_call list \<Rightarrow> ('a, 'p) QueueElement list \<Rightarrow>
   (js_error + ('a, 'p) QueueElement) list \<times> ('a, 'p) QueueElement list"
where
  "spec_calls [] xs = ([], xs)"
| "spec_calls (Enqueue el p # cs) xs = spec_calls cs (spec_enqueue xs el p)"
| "spec_calls (Dequeue # cs) xs =
     (let (r, xs') = spec_dequeue xs; (rs, xs'') = spec_calls cs xs' in (r # rs, xs''))"

text \<open>
  How the array of the queue relates to the stored elements in insertion order: it is
  ascending in priority, and for each priority it holds the same elements in the same
  order.
\<close>

definition queue_of ::
  "('a, 'p::linorder) QueueElement list \<Rightarrow> ('a, 'p) QueueElement list \<Rightarrow> bool"
where
  "queue_of es xs \<longleftrightarrow>
     sorted (map priority es) \<and>
     (\<forall>k. filter (\<lambda>e. priority e = k) es = filter (\<lambda>e. priority e = k) xs)"

section \<open>Predecessor chains\<close>

text \<open>
  Following predecessor links: \<open>follow v n c\<close> is the coordinate reached from \<open>c\<close>
  after \<open>n\<close> links of the visited map, if all \<open>n\<close> links are there; \<open>chain v n c\<close>
  lists the coordinates passed on the way, \<open>c\<close> first. \<open>reaches_first\<close> says that
  the chain from the end cell is at the start cell after \<open>n\<close> links and not before;
  \<open>reaches_within\<close> that it gets there in at most \<open>k\<close> links.
\<close>

fun follow :: "visited_map \<Rightarrow> nat \<Rightarrow> coord \<Rightarrow> coord option" where
  "follow v 0 c = Some c"
| "follow v (Suc n) c = (case v c of Some (From p) \<Rightarrow> follow v n p | _ \<Rightarrow> None)"

fun chain :: "visited_map \<Rightarrow> nat \<Rightarrow> coord \<Rightarrow> coord list" where
  "chain v 0 c = [c]"
| "chain v (Suc n) c = c # (case v c of Some (From p) \<Rightarrow> chain v n p | _ \<Rightarrow> [])"

definition reaches_first :: "visited_map \<Rightarrow> grid_map \<Rightarrow> nat \<Rightarrow> bool" where
  "reaches_first v m n \<longleftrightarrow>
     follow v n (endCell m) = Some (startCell m) \<and>
     (\<forall>i<n. follow v i (endCell m) \<noteq> Some (startCell m))"

definition reaches_within :: "visited_map \<Rightarrow> grid_map \<Rightarrow> nat \<Rightarrow> bool" where
  "reaches_within v m k \<longleftrightarrow> (\<exists>n\<le>k. follow v n (endCell m) = Some (startCell m))"

section \<open>The states of a run\<close>

text \<open>
  The state of \<open>dijkstra\<close> and of \<open>astar\<close> after \<open>n\<close> calls of the interval
  callback. Once the frontier is empty the interval is cleared and the state stays.
\<close>

fun dijkstra_after :: "grid_map \<Rightarrow> nat \<Rightarrow> search_state option" where
  "dijkstra_after m 0 = Some (search_init m)"
| "dijkstra_after m (Suc n) =
     (case dijkstra_after m n of
        None \<Rightarrow> None
      | Some s \<Rightarrow> if isEmpty (frontier s) then Some s else dijkstra_step m s)"

fun astar_after :: "grid_map \<Rightarrow> nat \<Rightarrow> search_state option" where
  "astar_after m 0 = Some (search_init m)"
| "astar_after m (Suc n) =
     (case astar_after m n of
        None \<Rightarrow> None
      | Some s \<Rightarrow> if isEmpty (frontier s) then Some s else astar_step m s)"

text \<open>
  What holds of the frontier in every state of such a run: the visited map and the cost
  map have the same keys, every queued coordinate is one of them, and no coordinate is
  queued twice.
\<close>

definition frontier_inv :: "search_state \<Rightarrow> bool" where
  "frontier_inv s \<longleftrightarrow>
     dom (visited s) = dom (cumulatedCost s) \<and>
     element ` set (queue (frontier s)) \<subseteq> dom (cumulatedCost s) \<and>
     distinct (map element (queue (frontier s)))"

text \<open>
  The total cost of a path as \<open>pathReconstruct\<close> returns it (end cell first, start cell
  last): the weights of the cells entered, that is of all cells but the start cell.
\<close>

definition path_cost :: "grid_map \<Rightarrow> coord list \<Rightarrow> int" where
  "path_cost m p = sum_list (map (findCost (grid m)) (butlast p))"

text \<open>
  The state in which the \<open>for\<close> loop of \<open>dijkstra\<close> (with \<open>h\<close> constantly zero) and
  of \<open>astar\<close> (with \<open>h\<close> the distance to the end cell) ends when none of the neighbors
  has a recorded cost: every neighbor is enqueued, in the order of the list, with the cost
  \<open>k\<close> of the current cell plus its own weight, and is marked as coming from the current
  cell \<open>c\<close>.
\<close>

definition admitted ::
  "grid_map \<Rightarrow> (coord \<Rightarrow> int) \<Rightarrow> coord \<Rightarrow> int \<Rightarrow> coord list \<Rightarrow> search_state \<Rightarrow> search_state"
where
  "admitted m h c k nbs s =
     s\<lparr>frontier := (frontier s)\<lparr>queue :=
          foldl enqueue_scan (queue (frontier s))
            (map (\<lambda>nb. \<lparr>element = nb, priority = k + findCost (grid m) nb + h nb\<rparr>) nbs)\<rparr>,
       cumulatedCost :=
          (\<lambda>x. if x \<in> set nbs then Some (k + findCost (grid m) x) else cumulatedCost s x),
       visited := (\<lambda>x. if x \<in> set nbs then Some (From c) else visited s x)\<rparr>"

section \<open>Paths on the grid\<close>

text \<open>
  Two cells are adjacent when one is the left, right, upper or lower neighbor of the
  other. A path from the start cell is listed like the result of \<open>pathReconstruct\<close>:
  its last cell first, the start cell last; every step goes to an adjacent cell that
  \<open>validate\<close> accepts. Its cost is \<open>path_cost\<close>, the weights of the cells entered.
  A path may pass through a cell more than once.
\<close>

definition adjacent :: "coord \<Rightarrow> coord \<Rightarrow> bool" where
  "adjacent c d \<longleftrightarrow>
     d \<in> set [(fst c - 1, snd c), (fst c + 1, snd c), (fst c, snd c - 1), (fst c, snd c + 1)]"

fun back_path :: "grid_map \<Rightarrow> coord list \<Rightarrow> bool" where
  "back_path m [] \<longleftrightarrow> False"
| "back_path m [c] \<longleftrightarrow> c = startCell m"
| "back_path m (d # c # p) \<longleftrightarrow>
     adjacent c d \<and> validate m (fst d) (snd d) \<and> back_path m (c # p)"

text \<open>
  The cells that have been taken out of the frontier and expanded, and what the proof of
  Dijkstra's search keeps about a state: every recorded cost is the cost of a path to the
  cell that passes only through cells with a recorded cost and through none of them
  twice, and no path to the cell is cheaper (\<open>costs_exact\<close>); every queued element has
  its recorded cost as priority, the queue is ascending, all passable neighbors of an
  expanded cell have a recorded cost, and no expanded cell costs more than a queued one
  (\<open>dijkstra_inv\<close>).
\<close>

definition expanded :: "search_state \<Rightarrow> coord set" where
  "expanded s = dom (cumulatedCost s) - element ` set (queue (frontier s))"

definition costs_exact :: "grid_map \<Rightarrow> search_state \<Rightarrow> bool" where
  "costs_exact m s \<longleftrightarrow>
     startCell m \<in> dom (cumulatedCost s) \<and>
     (\<forall>c k. cumulatedCost s c = Some k \<longrightarrow>
        (\<exists>p. back_path m (c # p) \<and> distinct (c # p) \<and>
             set (c # p) \<subseteq> dom (cumulatedCost s) \<and> path_cost m (c # p) = k) \<and>
        (\<forall>p. back_path m (c # p) \<longrightarrow> k \<le> path_cost m (c # p)))"

definition dijkstra_inv :: "grid_map \<Rightarrow> search_state \<Rightarrow> bool" where
  "dijkstra_inv m s \<longleftrightarrow>
     (\<forall>e \<in> set (queue (frontier s)). cumulatedCost s (element e) = Some (priority e)) \<and>
     sorted (map priority (queue (frontier s))) \<and>
     (\<forall>c \<in> expanded s. \<forall>d. adjacent c d \<and> validate m (fst d) (snd d) \<longrightarrow>
        d \<in> dom (cumulatedCost s)) \<and>
     (\<forall>c \<in> expanded s. \<forall>k. cumulatedCost s c = Some k \<longrightarrow>
        (\<forall>e \<in> set (queue (frontier s)). k \<le> priority e))"

definition dijkstra_loop_inv :: "grid_map \<Rightarrow> search_state \<Rightarrow> bool" where
  "dijkstra_loop_inv m s \<longleftrightarrow>
     frontier_inv s \<and> costs_exact m s \<and>
     (dijkstra_inv m s \<or>
      queue (frontier s) = [] \<and> endCell m \<in> dom (cumulatedCost s))"

definition nonneg_weights :: "grid_map \<Rightarrow> bool" where
  "nonneg_weights m \<longleftrightarrow> (\<forall>c. validate m (fst c) (snd c) \<longrightarrow> 0 \<le> findCost (grid m) c)"

text \<open>
  The end cell is enclosed when it is not the start cell and each of its four neighbors
  is rejected by \<open>validate\<close> (outside the grid, or an obstacle) and is not the start
  cell. \<open>no_way_in\<close> is what the searches then keep: the end cell is not visited, and
  every cell in the frontier is the start cell or a cell that \<open>validate\<close> accepts.
\<close>

definition enclosed :: "grid_map \<Rightarrow> bool" where
  "enclosed m \<longleftrightarrow>
     endCell m \<noteq> startCell m \<and>
     list_all (\<lambda>d. \<not> validate m (fst d) (snd d) \<and> d \<noteq> startCell m)
       [(fst (endCell m) - 1, snd (endCell m)), (fst (endCell m) + 1, snd (endCell m)),
        (fst (endCell m), snd (endCell m) - 1), (fst (endCell m), snd (endCell m) + 1)]"

definition no_way_in :: "grid_map \<Rightarrow> visited_map \<Rightarrow> coord set \<Rightarrow> bool" where
  "no_way_in m v front \<longleftrightarrow>
     endCell m \<notin> dom v \<and> front \<subseteq> dom v \<and>
     (\<forall>c \<in> front. c = startCell m \<or> validate m (fst c) (snd c))"

section \<open>Example inputs\<close>

text \<open>Concrete grids and states on which the theorems below are exercised.\<close>

definition plain3 :: grid_map where
  "plain3 =
     \<lparr>mapSize = 3, startCell = (0, 0), endCell = (2, 2),
      grid = replicate 3 (replicate 3 \<lparr>type = ''plain'', weight = 1\<rparr>)\<rparr>"

definition at_goal_bfs :: bfs_state where
  "at_goal_bfs =
     \<lparr>bfs_frontier = [(2, 2), (0, 1)],
      bfs_visited = [(0, 0) \<mapsto> NoOrigin, (0, 1) \<mapsto> From (0, 0), (2, 2) \<mapsto> From (0, 0)]\<rparr>"

definition at_goal_search :: search_state where
  "at_goal_search =
     \<lparr>frontier = \<lparr>queue = [\<lparr>element = (2, 2), priority = 1\<rparr>, \<lparr>element = (0, 1), priority = 1\<rparr>]\<rparr>,
      visited = [(0, 0) \<mapsto> NoOrigin, (0, 1) \<mapsto> From (0, 0), (2, 2) \<mapsto> From (0, 0)],
      cumulatedCost = [(0, 0) \<mapsto> 0, (0, 1) \<mapsto> 1, (2, 2) \<mapsto> 1]\<rparr>"

text \<open>
  Two visited maps: one in which two cells of a 2 by 2 grid name each other as
  predecessor, which no search produces, and the one that \<open>bfs\<close> leaves on
  \<open>plain3\<close> along its path.
\<close>

definition plain2 :: grid_map where
  "plain2 =
     \<lparr>mapSize = 2, startCell = (0, 0), endCell = (1, 1),
      grid = replicate 2 (replicate 2 \<lparr>type = ''plain'', weight = 1\<rparr>)\<rparr>"

definition cyclic_visited :: visited_map where
  "cyclic_visited = [(0, 0) \<mapsto> NoOrigin, (1, 1) \<mapsto> From (1, 0), (1, 0) \<mapsto> From (1, 1)]"

definition stair_visited :: visited_map where
  "stair_visited =
     [(0, 0) \<mapsto> NoOrigin, (0, 1) \<mapsto> From (0, 0), (1, 1) \<mapsto> From (0, 1),
      (1, 2) \<mapsto> From (1, 1), (2, 2) \<mapsto> From (1, 2)]"

text \<open>
  Cells as the map script makes them, and two grids of the size the script uses. In
  \<open>detour_map\<close> two routes lead from the start cell into the forest cell \<open>(1, 1)\<close>:
  through \<open>(1, 0)\<close> at cost \<open>10 + 13\<close>, and through \<open>(2, 1)\<close>, which is nearer to the
  end cell, at cost \<open>11 + 13\<close>. In \<open>enclosed_map\<close> the four neighbors of the end cell
  are obstacles.
\<close>

definition obstacle :: cell where "obstacle = \<lparr>type = ''obstacle'', weight = - 1\<rparr>"
definition plain :: cell where "plain = \<lparr>type = ''plain'', weight = 1\<rparr>"
definition forest :: "int \<Rightarrow> cell" where "forest w = \<lparr>type = ''forest'', weight = w\<rparr>"

definition detour_map :: grid_map where
  "detour_map =
     \<lparr>mapSize = 20, startCell = (2, 0), endCell = (2, 3),
      grid =
        [replicate 20 obstacle,
         [forest 10, forest 13, plain, forest 12] @ replicate 16 obstacle,
         [\<lparr>type = ''start'', weight = 1\<rparr>, forest 11, obstacle, \<lparr>type = ''end'', weight = 1\<rparr>] @
           replicate 16 obstacle] @
        replicate 17 (replicate 20 obstacle)\<rparr>"

definition enclosed_map :: grid_map where
  "enclosed_map =
     \<lparr>mapSize = 20, startCell = (0, 0), endCell = (2, 2),
      grid =
        [[\<lparr>type = ''start'', weight = 0\<rparr>, plain, plain] @ replicate 17 obstacle,
         [plain, plain, obstacle] @ replicate 17 obstacle,
         [plain, obstacle, \<lparr>type = ''end'', weight = 0\<rparr>] @ replicate 17 obstacle] @
        replicate 17 (replicate 20 obstacle)\<rparr>"

section \<open>Properties\<close>

subsection \<open>Dequeuing from an empty queue\<close>

text \<open>
  C4. On a queue for which \<open>isEmpty\<close> holds, \<open>dequeue\<close> throws the string
  \<open>"Error: No elements in Queue"\<close> (the empty-queue error) instead of returning a value,
  and the queue after the call is the queue before it.
\<close>

theorem dequeue_empty_fails:
  "isEmpty q \<Longrightarrow> fst (dequeue q) = Inl EmptyQueue \<and> snd (dequeue q) = q"
  by (simp add: dequeue_def)

theorem dequeue_empty_fails_witness:
  "isEmpty (new_PriorityQueue :: (coord, int) PriorityQueue) \<and>
   fst (dequeue (new_PriorityQueue :: (coord, int) PriorityQueue)) = Inl EmptyQueue \<and>
   snd (dequeue (new_PriorityQueue :: (coord, int) PriorityQueue)) = new_PriorityQueue"
proof -
  have e: "isEmpty (new_PriorityQueue :: (coord, int) PriorityQueue)"
    by (simp add: isEmpty_def new_PriorityQueue_def)
  from dequeue_empty_fails [OF e] e show ?thesis by simp
qed

subsection \<open>Neighbor expansion\<close>

lemma smod2: "(k::int) smod 2 = 0 \<longleftrightarrow> k mod 2 \<noteq> 1"
  by (auto simp: signed_modulo_int_def sgn_if abs_if split: if_splits)

lemma pushes_filter:
  "(let n = [];
        n = (if P a then n @ [a] else n);
        n = (if P b then n @ [b] else n);
        n = (if P c then n @ [c] else n);
        n = (if P d then n @ [d] else n)
    in f n) = f (filter P [a, b, c, d])"
  by (simp add: Let_def)

lemma findNeighbors_filter:
  "findNeighbors m x y vis =
     (let kept = filter (\<lambda>c. visitCell m (fst c) (snd c) vis)
                   [(x - 1, y), (x + 1, y), (x, y - 1), (x, y + 1)]
      in if (x + y) smod 2 = 0 then rev kept else kept)"
  unfolding findNeighbors_def
  using pushes_filter [of "\<lambda>c. visitCell m (fst c) (snd c) vis"
      "(x - 1, y)" "(x + 1, y)" "(x, y - 1)" "(x, y + 1)"
      "\<lambda>n. if (x + y) smod 2 = 0 then rev n else n"]
  by (simp add: Let_def)

text \<open>
  C5. On a well-formed grid, \<open>findNeighbors\<close> returns exactly those of the four cells
  \<open>(x-1, y)\<close>, \<open>(x+1, y)\<close>, \<open>(x, y-1)\<close>, \<open>(x, y+1)\<close> (left, right, up, down) that are
  inside the bounds, not of type obstacle, and not keys of the visited map, in this order
  when \<open>x + y\<close> is odd and in the reverse order when it is even.
\<close>

theorem findNeighbors_canonical:
  "wf_map m \<Longrightarrow>
   findNeighbors m x y vis =
     (let kept = filter (\<lambda>c. isBound m (fst c) (snd c) \<and>
                              type (grid m ! nat (fst c) ! nat (snd c)) \<noteq> ''obstacle'' \<and>
                              c \<notin> dom vis)
                   [(x - 1, y), (x + 1, y), (x, y - 1), (x, y + 1)]
      in if (x + y) mod 2 = 1 then kept else rev kept)"
  unfolding findNeighbors_filter visitCell_def validate_def smod2 Let_def
  by (simp only: conj_assoc if_not_P not_not split: if_split) simp

lemma wf_plain3: "wf_map plain3"
  by code_simp

lemma isBound_plain3: "isBound plain3 a b \<longleftrightarrow> 0 \<le> a \<and> 0 \<le> b \<and> a < 3 \<and> b < 3"
  by (simp add: isBound_def plain3_def)

lemma grid_plain3:
  "grid plain3 =
     [[\<lparr>type = ''plain'', weight = 1\<rparr>, \<lparr>type = ''plain'', weight = 1\<rparr>, \<lparr>type = ''plain'', weight = 1\<rparr>],
      [\<lparr>type = ''plain'', weight = 1\<rparr>, \<lparr>type = ''plain'', weight = 1\<rparr>, \<lparr>type = ''plain'', weight = 1\<rparr>],
      [\<lparr>type = ''plain'', weight = 1\<rparr>, \<lparr>type = ''plain'', weight = 1\<rparr>, \<lparr>type = ''plain'', weight = 1\<rparr>]]"
  by (simp add: plain3_def eval_nat_numeral)

theorem findNeighbors_canonical_witness:
  "wf_map plain3 \<and>
   findNeighbors plain3 0 1 [(0, 0) \<mapsto> NoOrigin] = [(1, 1), (0, 2)] \<and>
   findNeighbors plain3 1 1 Map.empty = [(1, 2), (1, 0), (2, 1), (0, 1)]"
  using wf_plain3 findNeighbors_canonical [OF wf_plain3, of 0 1 "[(0, 0) \<mapsto> NoOrigin]"]
    findNeighbors_canonical [OF wf_plain3, of 1 1 Map.empty]
  by (simp add: isBound_plain3 grid_plain3 Let_def)

subsection \<open>Early exit\<close>

text \<open>
  C9. In each of the three searches, the callback that pops the end cell expands no
  neighbor: it leaves the visited map (and the costs) as they are and empties the whole
  frontier at once, and the loop stops in that state.
\<close>

theorem goal_popped_discards_frontier:
  assumes "bfs_frontier sb = c # rest" and "equals c (endCell m)"
    and "queue (frontier s) = e # es" and "equals (element e) (endCell m)"
  shows "bfs_step m sb = sb\<lparr>bfs_frontier := []\<rparr> \<and>
         bfs_loop m (bfs_step m sb) = sb\<lparr>bfs_frontier := []\<rparr> \<and>
         dijkstra_step m s = Some (s\<lparr>frontier := \<lparr>queue = []\<rparr>\<rparr>) \<and>
         dijkstra_loop m (s\<lparr>frontier := \<lparr>queue = []\<rparr>\<rparr>) = Some (s\<lparr>frontier := \<lparr>queue = []\<rparr>\<rparr>) \<and>
         astar_step m s = Some (s\<lparr>frontier := \<lparr>queue = []\<rparr>\<rparr>) \<and>
         astar_loop m (s\<lparr>frontier := \<lparr>queue = []\<rparr>\<rparr>) = Some (s\<lparr>frontier := \<lparr>queue = []\<rparr>\<rparr>)"
proof -
  have b: "bfs_step m sb = sb\<lparr>bfs_frontier := []\<rparr>"
    using assms(1,2) by (simp add: bfs_step_def)
  have bl: "bfs_loop m (sb\<lparr>bfs_frontier := []\<rparr>) = sb\<lparr>bfs_frontier := []\<rparr>"
    by (simp add: bfs_loop.simps)
  have d: "dijkstra_step m s = Some (s\<lparr>frontier := \<lparr>queue = []\<rparr>\<rparr>)"
    using assms(3,4) by (simp add: dijkstra_step_Cons new_PriorityQueue_def)
  have a: "astar_step m s = Some (s\<lparr>frontier := \<lparr>queue = []\<rparr>\<rparr>)"
    using assms(3,4) by (simp add: astar_step_Cons new_PriorityQueue_def)
  have dl: "dijkstra_loop m (s\<lparr>frontier := \<lparr>queue = []\<rparr>\<rparr>) = Some (s\<lparr>frontier := \<lparr>queue = []\<rparr>\<rparr>)"
    by (simp add: dijkstra_loop.simps isEmpty_def)
  have al: "astar_loop m (s\<lparr>frontier := \<lparr>queue = []\<rparr>\<rparr>) = Some (s\<lparr>frontier := \<lparr>queue = []\<rparr>\<rparr>)"
    by (simp add: astar_loop.simps isEmpty_def)
  show ?thesis using b bl d a dl al by simp
qed

theorem goal_popped_discards_frontier_witness:
  "bfs_frontier at_goal_bfs = (2, 2) # [(0, 1)] \<and> equals (2, 2) (endCell plain3) \<and>
   queue (frontier at_goal_search) =
     \<lparr>element = (2, 2), priority = 1\<rparr> # [\<lparr>element = (0, 1), priority = 1\<rparr>] \<and>
   equals (element \<lparr>element = (2, 2), priority = 1::int\<rparr>) (endCell plain3) \<and>
   bfs_frontier (bfs_step plain3 at_goal_bfs) = [] \<and>
   bfs_visited (bfs_step plain3 at_goal_bfs) = bfs_visited at_goal_bfs \<and>
   map_option (\<lambda>s. queue (frontier s)) (dijkstra_step plain3 at_goal_search) = Some [] \<and>
   map_option visited (dijkstra_step plain3 at_goal_search) = Some (visited at_goal_search) \<and>
   map_option (\<lambda>s. queue (frontier s)) (astar_step plain3 at_goal_search) = Some []"
proof -
  have h1: "bfs_frontier at_goal_bfs = (2, 2) # [(0, 1)]" by (simp add: at_goal_bfs_def)
  have h2: "equals (2, 2) (endCell plain3)" by (simp add: equals_def plain3_def)
  have h3: "queue (frontier at_goal_search) =
     \<lparr>element = (2, 2), priority = 1\<rparr> # [\<lparr>element = (0, 1), priority = 1\<rparr>]"
    by (simp add: at_goal_search_def)
  have h4: "equals (element \<lparr>element = (2, 2), priority = 1::int\<rparr>) (endCell plain3)"
    by (simp add: equals_def plain3_def)
  from goal_popped_discards_frontier [OF h1 h2 h3 h4] h1 h2 h3 h4
  show ?thesis by simp
qed

subsection \<open>Breadth-first search pushes a coordinate once\<close>

lemma bfs_for_frontier: "bfs_frontier (bfs_for c nbs s) = bfs_frontier s @ nbs"
  by (induction nbs arbitrary: s) auto

lemma bfs_for_dom: "dom (bfs_visited (bfs_for c nbs s)) = dom (bfs_visited s) \<union> set nbs"
  by (induction nbs arbitrary: s) auto

lemma bfs_step_frontier:
  "bfs_frontier s = c # rest \<Longrightarrow>
   bfs_frontier (bfs_step m s) =
     (if equals c (endCell m) then [] else rest @ bfs_step_pushes m s)"
  by (simp add: bfs_step_def bfs_step_pushes_def bfs_for_frontier)

lemma bfs_step_dom:
  "dom (bfs_visited (bfs_step m s)) = dom (bfs_visited s) \<union> set (bfs_step_pushes m s)"
  by (cases "bfs_frontier s") (simp_all add: bfs_step_def bfs_step_pushes_def bfs_for_dom)

lemma bfs_step_pushes_fresh:
  "distinct (bfs_step_pushes m s) \<and> set (bfs_step_pushes m s) \<inter> dom (bfs_visited s) = {}"
  using findNeighbors_sub [of m _ _ "bfs_visited s"]
  by (cases "bfs_frontier s")
     (auto simp: bfs_step_pushes_def findNeighbors_distinct unvisited_def)

lemma bfs_pushes_fresh:
  "distinct (bfs_pushes m s) \<and> set (bfs_pushes m s) \<inter> dom (bfs_visited s) = {}"
proof (induction m s rule: bfs_pushes.induct)
  case (1 m s)
  show ?case
  proof (cases "length (bfs_frontier s) = 0")
    case True
    then show ?thesis by (simp add: bfs_pushes.simps)
  next
    case False
    note IH = "1.IH" [OF False]
    have eq: "bfs_pushes m s = bfs_step_pushes m s @ bfs_pushes m (bfs_step m s)"
      using False by (subst bfs_pushes.simps) simp
    from IH bfs_step_pushes_fresh [of m s] show ?thesis
      unfolding eq bfs_step_dom by auto
  qed
qed

lemma bfs_frontier_inv_step: "bfs_frontier_inv s \<Longrightarrow> bfs_frontier_inv (bfs_step m s)"
proof (cases "bfs_frontier s")
  case Nil
  assume "bfs_frontier_inv s"
  with Nil show ?thesis by (simp add: bfs_step_def)
next
  case (Cons c rest)
  assume inv: "bfs_frontier_inv s"
  from inv Cons bfs_step_pushes_fresh [of m s] show ?thesis
    unfolding bfs_frontier_inv_def bfs_step_frontier [OF Cons] bfs_step_dom
    by auto
qed

lemma bfs_frontier_inv_iter: "bfs_frontier_inv ((bfs_step m ^^ n) (bfs_init m))"
  by (induction n) (simp_all add: bfs_frontier_inv_step, simp add: bfs_frontier_inv_def bfs_init_def)

text \<open>
  C10. Over a whole run of \<open>bfs\<close>, the start cell and the cells pushed by the
  callbacks are pairwise different: no coordinate is pushed twice. In every state of the
  run the frontier holds no coordinate twice. (Each pushed cell is put into the visited
  map with its push, and \<open>findNeighbors\<close> returns no key of the visited map.)
\<close>

theorem bfs_pushes_once:
  "distinct (startCell m # bfs_pushes m (bfs_init m)) \<and>
   (\<forall>n. distinct (bfs_frontier ((bfs_step m ^^ n) (bfs_init m))))"
proof -
  have "startCell m \<in> dom (bfs_visited (bfs_init m))" by (simp add: bfs_init_def)
  with bfs_pushes_fresh [of m "bfs_init m"] have "distinct (startCell m # bfs_pushes m (bfs_init m))"
    by auto
  moreover have "\<forall>n. distinct (bfs_frontier ((bfs_step m ^^ n) (bfs_init m)))"
    using bfs_frontier_inv_iter [where m = m] by (simp add: bfs_frontier_inv_def)
  ultimately show ?thesis by simp
qed

subsection \<open>The contract of the priority queue\<close>

lemma set_enqueue_scan: "set (enqueue_scan es item) = insert item (set es)"
  by (induction es) auto

lemma sorted_enqueue_scan:
  "sorted (map priority es) \<Longrightarrow> sorted (map priority (enqueue_scan es item))"
  by (induction es) (auto simp: set_enqueue_scan)

lemma filter_enqueue_scan:
  "sorted (map priority es) \<Longrightarrow>
   filter (\<lambda>e. priority e = k) (enqueue_scan es item) =
   filter (\<lambda>e. priority e = k) es @ (if priority item = k then [item] else [])"
proof (induction es)
  case Nil
  then show ?case by simp
next
  case (Cons e es)
  show ?case
  proof (cases "priority e > priority item")
    case True
    have "\<forall>x \<in> set (e # es). priority item < priority x"
      using Cons.prems True by auto
    then have "priority item = k \<Longrightarrow> filter (\<lambda>e. priority e = k) (e # es) = []"
      by (auto simp: filter_empty_conv)
    with True show ?thesis by auto
  next
    case False
    with Cons show ?thesis by auto
  qed
qed

lemma queue_of_enqueue:
  "queue_of es xs \<Longrightarrow>
   queue_of (enqueue_scan es \<lparr>element = el, priority = p\<rparr>) (spec_enqueue xs el p)"
  by (simp add: queue_of_def sorted_enqueue_scan filter_enqueue_scan spec_enqueue_def)

lemma queue_of_set: "queue_of es xs \<Longrightarrow> set es = set xs"
proof -
  assume q: "queue_of es xs"
  have "x \<in> set es \<longleftrightarrow> x \<in> set xs" for x
  proof -
    have "x \<in> set es \<longleftrightarrow> x \<in> set (filter (\<lambda>e. priority e = priority x) es)" by simp
    also have "\<dots> \<longleftrightarrow> x \<in> set (filter (\<lambda>e. priority e = priority x) xs)"
      using q by (simp add: queue_of_def)
    also have "\<dots> \<longleftrightarrow> x \<in> set xs" by simp
    finally show ?thesis .
  qed
  then show ?thesis by blast
qed

lemma filter_remove1_other: "\<not> P e \<Longrightarrow> filter P (remove1 e xs) = filter P xs"
  by (induction xs) auto

lemma filter_remove1_head:
  "filter P xs = e # ys \<Longrightarrow> filter P (remove1 e xs) = ys"
proof (induction xs)
  case Nil
  then show ?case by simp
next
  case (Cons x xs)
  then show ?case by (cases "P x") (auto simp: filter_remove1_other)
qed

lemma queue_of_dequeue:
  assumes "queue_of (e # es) xs"
  shows "xs \<noteq> [] \<and> Min (priority ` set xs) = priority e \<and>
         hd (filter (\<lambda>x. priority x = priority e) xs) = e \<and>
         queue_of es (remove1 e xs)"
proof -
  have s: "set (e # es) = set xs" by (rule queue_of_set [OF assms])
  then have ne: "xs \<noteq> []" by auto
  have le: "\<forall>x \<in> set xs. priority e \<le> priority x"
    using assms s unfolding queue_of_def by auto
  have "e \<in> set xs" using s by auto
  with le have mn: "Min (priority ` set xs) = priority e"
    by (intro Min_eqI) auto
  have "filter (\<lambda>x. priority x = priority e) (e # es) = filter (\<lambda>x. priority x = priority e) xs"
    using assms unfolding queue_of_def by blast
  then have cls: "filter (\<lambda>x. priority x = priority e) xs = e # filter (\<lambda>x. priority x = priority e) es"
    by simp
  then have h: "hd (filter (\<lambda>x. priority x = priority e) xs) = e" by simp
  have srt: "sorted (map priority es)" using assms by (simp add: queue_of_def)
  have "filter (\<lambda>x. priority x = k) es = filter (\<lambda>x. priority x = k) (remove1 e xs)" for k
  proof (cases "k = priority e")
    case True
    then show ?thesis using filter_remove1_head [OF cls] by simp
  next
    case False
    then have "filter (\<lambda>x. priority x = k) (remove1 e xs) = filter (\<lambda>x. priority x = k) xs"
      by (intro filter_remove1_other) auto
    also have "\<dots> = filter (\<lambda>x. priority x = k) (e # es)"
      using assms by (simp add: queue_of_def)
    also have "\<dots> = filter (\<lambda>x. priority x = k) es" using False by auto
    finally show ?thesis by simp
  qed
  with srt have "queue_of es (remove1 e xs)" by (simp add: queue_of_def)
  with ne mn h show ?thesis by simp
qed

lemma run_calls_spec:
  "queue_of (queue q) xs \<Longrightarrow> fst (run_calls cs q) = fst (spec_calls cs xs)"
proof (induction cs arbitrary: q xs)
  case Nil
  then show ?case by simp
next
  case (Cons c cs)
  show ?case
  proof (cases c)
    case (Enqueue el p)
    have "queue_of (queue (enqueue q el p)) (spec_enqueue xs el p)"
      using queue_of_enqueue [OF Cons.prems] by (simp add: enqueue_def)
    from Cons.IH [OF this] Enqueue show ?thesis by simp
  next
    case Dequeue
    show ?thesis
    proof (cases "queue q")
      case Nil
      then have "xs = []" using queue_of_set [OF Cons.prems] by simp
      then have sd: "spec_dequeue xs = (Inl EmptyQueue, xs)" by (simp add: spec_dequeue_def)
      have d: "dequeue q = (Inl EmptyQueue, q)" using Nil by (simp add: dequeue_def isEmpty_def)
      from Cons.IH [OF Cons.prems] Dequeue sd d show ?thesis
        by (simp add: split_beta)
    next
      case (Cons e es)
      with Cons.prems have qo: "queue_of (e # es) xs" by simp
      note f = queue_of_dequeue [OF qo]
      have sd: "spec_dequeue xs = (Inr e, remove1 e xs)"
        using f by (simp add: spec_dequeue_def Let_def)
      have d: "dequeue q = (Inr e, q\<lparr>queue := es\<rparr>)"
        using Cons by (simp add: dequeue_def isEmpty_def)
      have "queue_of (queue (q\<lparr>queue := es\<rparr>)) (remove1 e xs)" using f by simp
      from Cons.IH [OF this] Dequeue sd d show ?thesis
        by (simp add: split_beta)
    qed
  qed
qed

lemma run_calls_sorted:
  "sorted (map priority (queue q)) \<Longrightarrow> sorted (map priority (queue (snd (run_calls cs q))))"
proof (induction cs arbitrary: q)
  case Nil
  then show ?case by simp
next
  case (Cons c cs)
  show ?case
  proof (cases c)
    case (Enqueue el p)
    have "sorted (map priority (queue (enqueue q el p)))"
      using Cons.prems by (simp add: enqueue_def sorted_enqueue_scan)
    from Cons.IH [OF this] Enqueue show ?thesis by simp
  next
    case Dequeue
    have "sorted (map priority (queue (snd (dequeue q))))"
      using Cons.prems by (cases "queue q") (auto simp: dequeue_def isEmpty_def)
    from Cons.IH [OF this] Dequeue show ?thesis by (simp add: split_beta)
  qed
qed

lemma drain_take:
  "returned (fst (run_calls (replicate n Dequeue) q)) = take n (queue q)"
proof (induction n arbitrary: q)
  case 0
  then show ?case by simp
next
  case (Suc n)
  show ?case
  proof (cases "queue q")
    case Nil
    then have d: "dequeue q = (Inl EmptyQueue, q)" by (simp add: dequeue_def isEmpty_def)
    show ?thesis using Suc [of q] Nil d by (simp add: split_beta)
  next
    case (Cons e es)
    then have d: "dequeue q = (Inr e, q\<lparr>queue := es\<rparr>)" by (simp add: dequeue_def isEmpty_def)
    show ?thesis using Suc [of "q\<lparr>queue := es\<rparr>"] Cons d by (simp add: split_beta)
  qed
qed

text \<open>
  C3, as amended. For every sequence of \<open>enqueue\<close> and \<open>dequeue\<close> calls on a new
  queue: every \<open>dequeue\<close> produces what the contract model produces, that is an element
  of the lowest priority among those stored, the first enqueued among the stored elements
  of that priority (and the empty-queue error when nothing is stored); the array of the
  queue is ascending in priority after the calls; and any number of \<open>dequeue\<close> calls
  made then with no \<open>enqueue\<close> between them return non-decreasing priorities.
\<close>

theorem queue_calls_contract:
  "fst (run_calls cs new_PriorityQueue) = fst (spec_calls cs []) \<and>
   sorted (map priority (queue (snd (run_calls cs new_PriorityQueue)))) \<and>
   sorted (map priority
     (returned (fst (run_calls (replicate n Dequeue) (snd (run_calls cs new_PriorityQueue))))))"
proof -
  have q0: "queue_of (queue new_PriorityQueue) []"
    by (simp add: queue_of_def new_PriorityQueue_def)
  have s0: "sorted (map priority (queue (new_PriorityQueue :: ('a, 'b) PriorityQueue)))"
    by (simp add: new_PriorityQueue_def)
  note s = run_calls_sorted [OF s0, of cs]
  have "sorted (take n (map priority (queue (snd (run_calls cs new_PriorityQueue)))))"
    using s by (rule sorted_wrt_take)
  then show ?thesis
    using run_calls_spec [OF q0, of cs] s by (simp add: drain_take take_map)
qed

text \<open>
  C3, as stated, fails when an \<open>enqueue\<close> of a lower priority comes between two
  \<open>dequeue\<close> calls: the two calls return priorities 5 and then 3.
\<close>

theorem interleaved_dequeues_decrease:
  "\<not> sorted (map priority (returned (fst (run_calls
       [Enqueue ''a'' (5::int), Dequeue, Enqueue ''b'' 3, Dequeue] new_PriorityQueue))))"
  by (simp add: new_PriorityQueue_def enqueue_def dequeue_def isEmpty_def)

theorem queue_calls_contract_witness:
  "map element (returned (fst (run_calls
     [Enqueue ''a'' (2::int), Enqueue ''b'' 1, Enqueue ''c'' 2, Enqueue ''d'' 1,
      Dequeue, Dequeue, Dequeue, Dequeue, Dequeue] new_PriorityQueue))) =
   [''b'', ''d'', ''a'', ''c'']"
proof -
  have "map element (returned (fst (spec_calls
     [Enqueue ''a'' (2::int), Enqueue ''b'' 1, Enqueue ''c'' 2, Enqueue ''d'' 1,
      Dequeue, Dequeue, Dequeue, Dequeue, Dequeue] []))) =
   [''b'', ''d'', ''a'', ''c'']"
    by (simp add: spec_enqueue_def spec_dequeue_def Let_def)
  with queue_calls_contract [of "[Enqueue ''a'' (2::int), Enqueue ''b'' 1, Enqueue ''c'' 2,
      Enqueue ''d'' 1, Dequeue, Dequeue, Dequeue, Dequeue, Dequeue]" 0]
  show ?thesis by simp
qed

subsection \<open>Path reconstruction follows the predecessor chain\<close>

lemma equals_eq: "equals c1 c2 \<longleftrightarrow> c1 = c2"
  by (auto simp: equals_def prod_eq_iff)

lemma reconstruct_reaches:
  "follow v n c = Some (startCell m) \<Longrightarrow>
   (\<forall>i<n. follow v i c \<noteq> Some (startCell m)) \<Longrightarrow>
   pathReconstruct_while v m c acc = Some (Inr (acc @ chain v n c))"
proof (induction n arbitrary: c acc)
  case 0
  then show ?case by (subst pathReconstruct_while.simps) (simp add: equals_eq)
next
  case (Suc n)
  from Suc.prems(2) have ne: "c \<noteq> startCell m" by fastforce
  from Suc.prems(1) obtain p where p: "v c = Some (From p)" and f: "follow v n p = Some (startCell m)"
    by (auto split: option.splits origin.splits)
  have nb: "\<forall>i<n. follow v i p \<noteq> Some (startCell m)"
  proof (intro allI impI)
    fix i assume "i < n"
    then have "follow v (Suc i) c \<noteq> Some (startCell m)" using Suc.prems(2) by blast
    then show "follow v i p \<noteq> Some (startCell m)" using p by simp
  qed
  have "pathReconstruct_while v m c acc = pathReconstruct_while v m p (acc @ [c])"
    using ne p by (subst pathReconstruct_while.simps) (simp add: equals_eq)
  also have "\<dots> = Some (Inr ((acc @ [c]) @ chain v n p))"
    by (rule Suc.IH [OF f nb])
  finally show ?case using p by simp
qed

lemma reconstruct_returns:
  "pathReconstruct_while v m c acc = Some r \<Longrightarrow>
   (\<forall>p. r = Inr p \<longrightarrow>
      (\<exists>n. follow v n c = Some (startCell m) \<and>
           (\<forall>i<n. follow v i c \<noteq> Some (startCell m)) \<and> p = acc @ chain v n c))"
proof (induction v m c acc r rule: pathReconstruct_while.raw_induct [rotated 1, consumes 1, case_names step])
  case (step rec v m c acc r)
  note IH = step(1) and eqn = step(2)
  show ?case
  proof (cases "c = startCell m")
    case True
    with eqn have "r = Inr (acc @ [startCell m])" by (simp add: equals_eq)
    moreover have "follow v 0 c = Some (startCell m)" using True by simp
    ultimately show ?thesis using True by (intro allI impI exI [of _ 0]) simp
  next
    case False
    show ?thesis
    proof (intro allI impI)
      fix p assume r: "r = Inr p"
      from eqn False r obtain q where q: "v c = Some (From q)"
        and rec: "rec v m q (acc @ [c]) = Some (Inr p)"
        by (auto simp: equals_eq split: option.splits origin.splits)
      from IH [OF rec] obtain n where n: "follow v n q = Some (startCell m)"
        and nb: "\<forall>i<n. follow v i q \<noteq> Some (startCell m)" and pp: "p = (acc @ [c]) @ chain v n q"
        by blast
      have "\<forall>i<Suc n. follow v i c \<noteq> Some (startCell m)"
      proof (intro allI impI)
        fix i assume i: "i < Suc n"
        show "follow v i c \<noteq> Some (startCell m)"
        proof (cases i)
          case 0
          then show ?thesis using False by simp
        next
          case (Suc j)
          then show ?thesis using i nb q by simp
        qed
      qed
      moreover have "follow v (Suc n) c = Some (startCell m)" using n q by simp
      moreover have "p = acc @ chain v (Suc n) c" using pp q by simp
      ultimately show "\<exists>n. follow v n c = Some (startCell m) \<and>
           (\<forall>i<n. follow v i c \<noteq> Some (startCell m)) \<and> p = acc @ chain v n c"
        by blast
    qed
  qed
qed

text \<open>
  C6, as amended. \<open>pathReconstruct\<close> has no bound on the number of steps: it returns
  a path exactly when following predecessor links from the end cell reaches the start cell,
  after any number \<open>n\<close> of links, and the path is then the \<open>n + 1\<close> coordinates
  passed on the way, end cell first and start cell last. In every other case it returns no
  path.
\<close>

theorem pathReconstruct_follows_chain:
  "pathReconstruct v m = Some (Inr p) \<longleftrightarrow>
   (\<exists>n. reaches_first v m n \<and> p = chain v n (endCell m))"
proof
  assume "pathReconstruct v m = Some (Inr p)"
  then show "\<exists>n. reaches_first v m n \<and> p = chain v n (endCell m)"
    using reconstruct_returns [of v m "endCell m" "[]" "Inr p"]
    by (simp add: pathReconstruct_def reaches_first_def)
next
  assume "\<exists>n. reaches_first v m n \<and> p = chain v n (endCell m)"
  then obtain n where "reaches_first v m n" and "p = chain v n (endCell m)" by blast
  then show "pathReconstruct v m = Some (Inr p)"
    using reconstruct_reaches [of v n "endCell m" m "[]"]
    by (simp add: pathReconstruct_def reaches_first_def)
qed

lemma follow_cyclic:
  "follow cyclic_visited n (1, 1) = Some (if even n then (1, 1) else (1, 0)) \<and>
   follow cyclic_visited n (1, 0) = Some (if even n then (1, 0) else (1, 1))"
  by (induction n) (simp_all add: cyclic_visited_def)

lemma cyclic_never_returns:
  "pathReconstruct_while v m c acc = Some r \<Longrightarrow>
   v = cyclic_visited \<Longrightarrow> startCell m = (0, 0) \<Longrightarrow> c = (1, 1) \<or> c = (1, 0) \<Longrightarrow> False"
proof (induction v m c acc r rule: pathReconstruct_while.raw_induct [rotated 1, consumes 1, case_names step])
  case (step rec v m c acc r)
  note IH = step(1) and eqn = step(2)
  from step.prems(3) show ?case
  proof
    assume c: "c = (1, 1)"
    with eqn step.prems(1,2) have "rec v m (1, 0) (acc @ [c]) = Some r"
      by (simp add: equals_def cyclic_visited_def)
    from IH [OF this step.prems(1,2)] show False by simp
  next
    assume c: "c = (1, 0)"
    with eqn step.prems(1,2) have "rec v m (1, 1) (acc @ [c]) = Some r"
      by (simp add: equals_def cyclic_visited_def)
    from IH [OF this step.prems(1,2)] show False by simp
  qed
qed

theorem pathReconstruct_follows_chain_witness:
  "reaches_first stair_visited plain3 4 \<and>
   chain stair_visited 4 (endCell plain3) = [(2, 2), (1, 2), (1, 1), (0, 1), (0, 0)] \<and>
   pathReconstruct stair_visited plain3 = Some (Inr [(2, 2), (1, 2), (1, 1), (0, 1), (0, 0)])"
proof -
  have "follow stair_visited i (2, 2) \<noteq> Some (0, 0)" if "i < 4" for i
  proof -
    from that have "i = 0 \<or> i = Suc 0 \<or> i = Suc (Suc 0) \<or> i = Suc (Suc (Suc 0))" by arith
    then show ?thesis by (auto simp: stair_visited_def)
  qed
  then have r: "reaches_first stair_visited plain3 4"
    by (simp add: reaches_first_def plain3_def stair_visited_def eval_nat_numeral)
  have c: "chain stair_visited 4 (endCell plain3) = [(2, 2), (1, 2), (1, 1), (0, 1), (0, 0)]"
    by (simp add: plain3_def stair_visited_def eval_nat_numeral)
  from r c have "\<exists>n. reaches_first stair_visited plain3 n \<and>
      [(2, 2), (1, 2), (1, 1), (0, 1), (0, 0)] = chain stair_visited n (endCell plain3)"
    by (intro exI [of _ 4]) simp
  with r c pathReconstruct_follows_chain [of stair_visited plain3 "[(2, 2), (1, 2), (1, 1), (0, 1), (0, 0)]"]
  show ?thesis by simp
qed

text \<open>
  C6, as stated, fails. With two cells that name each other as predecessor the chain from
  the end cell does not reach the start cell within \<open>2 \<times> 2\<close> steps (or ever), and
  \<open>pathReconstruct\<close> does not fail with an error: it never returns.
\<close>

theorem pathReconstruct_no_bound:
  "\<not> reaches_within cyclic_visited plain2 (nat (mapSize plain2 * mapSize plain2)) \<and>
   pathReconstruct cyclic_visited plain2 = None"
proof -
  have a: "\<not> reaches_within cyclic_visited plain2 (nat (mapSize plain2 * mapSize plain2))"
    using follow_cyclic by (auto simp: reaches_within_def plain2_def)
  have "pathReconstruct cyclic_visited plain2 \<noteq> Some r" for r
    using cyclic_never_returns [of cyclic_visited plain2 "(1, 1)" "[]" r]
    by (auto simp: pathReconstruct_def plain2_def)
  then have b: "pathReconstruct cyclic_visited plain2 = None"
    by (cases "pathReconstruct cyclic_visited plain2") auto
  from a b show ?thesis by simp
qed

subsection \<open>The frontier of Dijkstra and A*\<close>

lemma set_enqueue_all:
  "set (foldl enqueue_scan es items) = set es \<union> set items"
  by (induction items arbitrary: es) (auto simp: set_enqueue_scan)

lemma sorted_enqueue_all:
  "sorted (map priority es) \<Longrightarrow> sorted (map priority (foldl enqueue_scan es items))"
  by (induction items arbitrary: es) (auto simp: sorted_enqueue_scan)

lemma distinct_enqueue_scan:
  "element item \<notin> element ` set es \<Longrightarrow> distinct (map element es) \<Longrightarrow>
   distinct (map element (enqueue_scan es item))"
  by (induction es) (auto simp: set_enqueue_scan)

lemma distinct_enqueue_all:
  "distinct (map element es) \<Longrightarrow> distinct (map element items) \<Longrightarrow>
   element ` set items \<inter> element ` set es = {} \<Longrightarrow>
   distinct (map element (foldl enqueue_scan es items))"
proof (induction items arbitrary: es)
  case Nil
  then show ?case by simp
next
  case (Cons item items)
  have d: "distinct (map element (enqueue_scan es item))"
    using Cons.prems by (intro distinct_enqueue_scan) auto
  have "element ` set items \<inter> element ` set (enqueue_scan es item) = {}"
    using Cons.prems by (auto simp: set_enqueue_scan)
  with Cons.IH [OF d] Cons.prems(2) show ?case by simp
qed

lemma dijkstra_for_fresh:
  assumes "cumulatedCost s c = Some k" and "distinct nbs"
    and "set nbs \<inter> dom (cumulatedCost s) = {}"
  shows "dijkstra_for m c nbs s = Some (admitted m (\<lambda>nb. 0) c k nbs s)"
  using assms
proof (induction nbs arbitrary: s)
  case Nil
  then show ?case by (simp add: admitted_def)
next
  case (Cons nb nbs)
  let ?new = "k + findCost (grid m) nb"
  let ?s = "s\<lparr>frontier := enqueue (frontier s) nb ?new,
               cumulatedCost := (cumulatedCost s)(nb \<mapsto> ?new),
               visited := (visited s)(nb \<mapsto> From c)\<rparr>"
  have fresh: "nb \<notin> dom (cumulatedCost s)" using Cons.prems(3) by auto
  then have cnb: "c \<noteq> nb" using Cons.prems(1) by auto
  have 1: "cumulatedCost ?s c = Some k" using Cons.prems(1) cnb by simp
  have 2: "distinct nbs" using Cons.prems(2) by simp
  have 3: "set nbs \<inter> dom (cumulatedCost ?s) = {}" using Cons.prems(2,3) by auto
  have "dijkstra_for m c (nb # nbs) s = dijkstra_for m c nbs ?s"
    using Cons.prems(1) fresh by (simp add: Let_def)
  also note Cons.IH [OF 1 2 3]
  finally show ?case
    by (simp add: admitted_def enqueue_def fun_eq_iff)
qed

lemma astar_for_fresh:
  assumes "cumulatedCost s c = Some k" and "distinct nbs"
    and "set nbs \<inter> dom (cumulatedCost s) = {}"
  shows "astar_for m c nbs s = Some (admitted m (heuristic (endCell m)) c k nbs s)"
  using assms
proof (induction nbs arbitrary: s)
  case Nil
  then show ?case by (simp add: admitted_def)
next
  case (Cons nb nbs)
  let ?new = "k + findCost (grid m) nb"
  let ?s = "s\<lparr>frontier := enqueue (frontier s) nb (?new + heuristic (endCell m) nb),
               cumulatedCost := (cumulatedCost s)(nb \<mapsto> ?new),
               visited := (visited s)(nb \<mapsto> From c)\<rparr>"
  have fresh: "nb \<notin> dom (cumulatedCost s)" using Cons.prems(3) by auto
  then have cnb: "c \<noteq> nb" using Cons.prems(1) by auto
  have 1: "cumulatedCost ?s c = Some k" using Cons.prems(1) cnb by simp
  have 2: "distinct nbs" using Cons.prems(2) by simp
  have 3: "set nbs \<inter> dom (cumulatedCost ?s) = {}" using Cons.prems(2,3) by auto
  have "astar_for m c (nb # nbs) s = astar_for m c nbs ?s"
    using Cons.prems(1) fresh by (simp add: Let_def)
  also note Cons.IH [OF 1 2 3]
  finally show ?case
    by (simp add: admitted_def enqueue_def fun_eq_iff)
qed

lemma findNeighbors_fresh: "set (findNeighbors m x y v) \<inter> dom v = {}"
  using findNeighbors_sub [of m x y v] by (auto simp: unvisited_def)

lemma frontier_inv_admitted:
  assumes "frontier_inv s" and "distinct nbs" and "set nbs \<inter> dom (cumulatedCost s) = {}"
  shows "frontier_inv (admitted m h c k nbs s)"
proof -
  let ?items = "map (\<lambda>nb. \<lparr>element = nb, priority = k + findCost (grid m) nb + h nb\<rparr>) nbs"
  have el: "map element ?items = nbs" by (induction nbs) auto
  then have els: "element ` set ?items = set nbs" by (metis list.set_map)
  have dis: "element ` set ?items \<inter> element ` set (queue (frontier s)) = {}"
    unfolding els using assms(1,3) unfolding frontier_inv_def by blast
  have d: "distinct (map element (foldl enqueue_scan (queue (frontier s)) ?items))"
    using assms(1,2) el dis by (intro distinct_enqueue_all) (simp_all add: frontier_inv_def)
  have "dom (visited (admitted m h c k nbs s)) = dom (visited s) \<union> set nbs"
    by (auto simp: admitted_def dom_def)
  moreover have "dom (cumulatedCost (admitted m h c k nbs s)) = dom (cumulatedCost s) \<union> set nbs"
    by (auto simp: admitted_def dom_def)
  moreover have "element ` set (queue (frontier (admitted m h c k nbs s))) =
      element ` set (queue (frontier s)) \<union> set nbs"
    using els by (simp add: admitted_def set_enqueue_all image_Un)
  ultimately show ?thesis using assms(1) d
    by (auto simp: frontier_inv_def admitted_def)
qed

lemma frontier_inv_pop:
  "frontier_inv s \<Longrightarrow> queue (frontier s) = e # es \<Longrightarrow>
   frontier_inv (s\<lparr>frontier := (frontier s)\<lparr>queue := es\<rparr>\<rparr>)"
  by (auto simp: frontier_inv_def)

lemma dijkstra_step_fresh:
  assumes "frontier_inv s" and "queue (frontier s) = e # es"
  shows "\<exists>k. cumulatedCost s (element e) = Some k \<and>
     dijkstra_step m s =
       Some (if equals (element e) (endCell m) then s\<lparr>frontier := new_PriorityQueue\<rparr>
             else admitted m (\<lambda>nb. 0) (element e) k
                    (findNeighbors m (fst (element e)) (snd (element e)) (visited s))
                    (s\<lparr>frontier := (frontier s)\<lparr>queue := es\<rparr>\<rparr>))"
proof -
  from assms obtain k where k: "cumulatedCost s (element e) = Some k"
    by (auto simp: frontier_inv_def)
  let ?nbs = "findNeighbors m (fst (element e)) (snd (element e)) (visited s)"
  let ?s = "s\<lparr>frontier := (frontier s)\<lparr>queue := es\<rparr>\<rparr>"
  have "set ?nbs \<inter> dom (cumulatedCost ?s) = {}"
    using findNeighbors_fresh [of m _ _ "visited s"] assms(1) by (simp add: frontier_inv_def)
  from dijkstra_for_fresh [OF _ findNeighbors_distinct this, of "element e" k m] k
  show ?thesis by (simp add: dijkstra_step_Cons [OF assms(2)])
qed

lemma astar_step_fresh:
  assumes "frontier_inv s" and "queue (frontier s) = e # es"
  shows "\<exists>k. cumulatedCost s (element e) = Some k \<and>
     astar_step m s =
       Some (if equals (element e) (endCell m) then s\<lparr>frontier := new_PriorityQueue\<rparr>
             else admitted m (heuristic (endCell m)) (element e) k
                    (findNeighbors m (fst (element e)) (snd (element e)) (visited s))
                    (s\<lparr>frontier := (frontier s)\<lparr>queue := es\<rparr>\<rparr>))"
proof -
  from assms obtain k where k: "cumulatedCost s (element e) = Some k"
    by (auto simp: frontier_inv_def)
  let ?nbs = "findNeighbors m (fst (element e)) (snd (element e)) (visited s)"
  let ?s = "s\<lparr>frontier := (frontier s)\<lparr>queue := es\<rparr>\<rparr>"
  have "set ?nbs \<inter> dom (cumulatedCost ?s) = {}"
    using findNeighbors_fresh [of m _ _ "visited s"] assms(1) by (simp add: frontier_inv_def)
  from astar_for_fresh [OF _ findNeighbors_distinct this, of "element e" k m] k
  show ?thesis by (simp add: astar_step_Cons [OF assms(2)])
qed

lemma frontier_inv_init: "frontier_inv (search_init m)"
  by (simp add: frontier_inv_def search_init_def enqueue_def new_PriorityQueue_def)

lemma frontier_inv_discard: "frontier_inv s \<Longrightarrow> frontier_inv (s\<lparr>frontier := new_PriorityQueue\<rparr>)"
  by (simp add: frontier_inv_def new_PriorityQueue_def)

lemma dijkstra_step_inv:
  assumes "frontier_inv s" and "\<not> isEmpty (frontier s)"
  shows "\<exists>s'. dijkstra_step m s = Some s' \<and> frontier_inv s'"
proof -
  from assms(2) obtain e es where q: "queue (frontier s) = e # es"
    by (cases "queue (frontier s)") (auto simp: isEmpty_def)
  from dijkstra_step_fresh [OF assms(1) q, of m] obtain k where
    st: "dijkstra_step m s =
       Some (if equals (element e) (endCell m) then s\<lparr>frontier := new_PriorityQueue\<rparr>
             else admitted m (\<lambda>nb. 0) (element e) k
                    (findNeighbors m (fst (element e)) (snd (element e)) (visited s))
                    (s\<lparr>frontier := (frontier s)\<lparr>queue := es\<rparr>\<rparr>))" by blast
  have "frontier_inv (admitted m (\<lambda>nb. 0) (element e) k
                    (findNeighbors m (fst (element e)) (snd (element e)) (visited s))
                    (s\<lparr>frontier := (frontier s)\<lparr>queue := es\<rparr>\<rparr>))"
    using findNeighbors_fresh [of m _ _ "visited s"] assms(1)
    by (intro frontier_inv_admitted frontier_inv_pop [OF assms(1) q] findNeighbors_distinct)
       (simp add: frontier_inv_def)
  with st frontier_inv_discard [OF assms(1)] show ?thesis by simp
qed

lemma astar_step_inv:
  assumes "frontier_inv s" and "\<not> isEmpty (frontier s)"
  shows "\<exists>s'. astar_step m s = Some s' \<and> frontier_inv s'"
proof -
  from assms(2) obtain e es where q: "queue (frontier s) = e # es"
    by (cases "queue (frontier s)") (auto simp: isEmpty_def)
  from astar_step_fresh [OF assms(1) q, of m] obtain k where
    st: "astar_step m s =
       Some (if equals (element e) (endCell m) then s\<lparr>frontier := new_PriorityQueue\<rparr>
             else admitted m (heuristic (endCell m)) (element e) k
                    (findNeighbors m (fst (element e)) (snd (element e)) (visited s))
                    (s\<lparr>frontier := (frontier s)\<lparr>queue := es\<rparr>\<rparr>))" by blast
  have "frontier_inv (admitted m (heuristic (endCell m)) (element e) k
                    (findNeighbors m (fst (element e)) (snd (element e)) (visited s))
                    (s\<lparr>frontier := (frontier s)\<lparr>queue := es\<rparr>\<rparr>))"
    using findNeighbors_fresh [of m _ _ "visited s"] assms(1)
    by (intro frontier_inv_admitted frontier_inv_pop [OF assms(1) q] findNeighbors_distinct)
       (simp add: frontier_inv_def)
  with st frontier_inv_discard [OF assms(1)] show ?thesis by simp
qed

lemma dijkstra_after_inv: "\<exists>s. dijkstra_after m n = Some s \<and> frontier_inv s"
proof (induction n)
  case 0
  then show ?case by (simp add: frontier_inv_init)
next
  case (Suc n)
  then obtain s where s: "dijkstra_after m n = Some s" and inv: "frontier_inv s" by blast
  show ?case
  proof (cases "isEmpty (frontier s)")
    case True
    with s inv show ?thesis by simp
  next
    case False
    from dijkstra_step_inv [OF inv False, of m] s False show ?thesis by simp
  qed
qed

lemma astar_after_inv: "\<exists>s. astar_after m n = Some s \<and> frontier_inv s"
proof (induction n)
  case 0
  then show ?case by (simp add: frontier_inv_init)
next
  case (Suc n)
  then obtain s where s: "astar_after m n = Some s" and inv: "frontier_inv s" by blast
  show ?case
  proof (cases "isEmpty (frontier s)")
    case True
    with s inv show ?thesis by simp
  next
    case False
    from astar_step_inv [OF inv False, of m] s False show ?thesis by simp
  qed
qed

text \<open>
  Every run of \<open>dijkstra\<close> and of \<open>astar\<close> ends in a state with an empty frontier;
  the popped cell always has a recorded cost.
\<close>

lemma dijkstra_loop_defined:
  "frontier_inv s \<Longrightarrow>
   \<exists>s'. dijkstra_loop m s = Some s' \<and> frontier_inv s' \<and> isEmpty (frontier s')"
proof (induction m s rule: dijkstra_loop.induct)
  case (1 m s)
  show ?case
  proof (cases "isEmpty (frontier s)")
    case True
    with "1.prems" show ?thesis by (simp add: dijkstra_loop.simps)
  next
    case False
    from dijkstra_step_inv [OF "1.prems" False, of m] obtain s1 where
      s1: "dijkstra_step m s = Some s1" and fi1: "frontier_inv s1" by blast
    from "1.IH" [OF False s1 fi1] s1 False show ?thesis
      by (subst dijkstra_loop.simps) simp
  qed
qed

lemma astar_loop_defined:
  "frontier_inv s \<Longrightarrow>
   \<exists>s'. astar_loop m s = Some s' \<and> frontier_inv s' \<and> isEmpty (frontier s')"
proof (induction m s rule: astar_loop.induct)
  case (1 m s)
  show ?case
  proof (cases "isEmpty (frontier s)")
    case True
    with "1.prems" show ?thesis by (simp add: astar_loop.simps)
  next
    case False
    from astar_step_inv [OF "1.prems" False, of m] obtain s1 where
      s1: "astar_step m s = Some s1" and fi1: "frontier_inv s1" by blast
    from "1.IH" [OF False s1 fi1] s1 False show ?thesis
      by (subst astar_loop.simps) simp
  qed
qed

text \<open>
  C2. No step of any run admits a neighbor that is already in the visited map: in every
  state of every run of \<open>dijkstra\<close> and of \<open>astar\<close>, the neighbors that
  \<open>findNeighbors\<close> hands to the \<open>for\<close> loop have no recorded cost, so the test
  \<open>newCost < cumulatedCost.get(neighbor)\<close> is never reached with a visited neighbor, and
  no coordinate is in the queue twice.
\<close>

theorem visited_neighbor_never_readmitted:
  assumes "dijkstra_after m n = Some s \<or> astar_after m n = Some s"
  shows "set (findNeighbors m x y (visited s)) \<inter> dom (cumulatedCost s) = {} \<and>
         distinct (map element (queue (frontier s)))"
proof -
  from assms dijkstra_after_inv [of m n] astar_after_inv [of m n]
  have inv: "frontier_inv s" by auto
  with findNeighbors_fresh [of m x y "visited s"] show ?thesis
    by (simp add: frontier_inv_def)
qed

text \<open>
  On \<open>detour_map\<close>, after two callbacks of \<open>astar\<close> the cell \<open>(1, 1)\<close> has the cost
  24 (reached through \<open>(2, 1)\<close>) and the cell \<open>(1, 0)\<close>, of cost 10, is next in the queue.
  Entering \<open>(1, 1)\<close> from \<open>(1, 0)\<close> would cost \<open>10 + 13 = 23\<close>, which is lower, but
  \<open>(1, 1)\<close> is visited and \<open>findNeighbors\<close> does not return it: after the third callback
  its cost is still 24 and it is in the queue once.
\<close>

theorem visited_neighbor_never_readmitted_witness:
  "(dijkstra_after detour_map 2 = Some (the (astar_after detour_map 2)) \<or>
    astar_after detour_map 2 = Some (the (astar_after detour_map 2))) \<and>
   set (findNeighbors detour_map 1 0 (visited (the (astar_after detour_map 2)))) \<inter>
     dom (cumulatedCost (the (astar_after detour_map 2))) = {} \<and>
   distinct (map element (queue (frontier (the (astar_after detour_map 2))))) \<and>
   map_option (\<lambda>s. (map (\<lambda>e. (element e, priority e)) (queue (frontier s)),
                      cumulatedCost s (1, 0), cumulatedCost s (1, 1)))
     (astar_after detour_map 2) =
     Some ([((1, 0), 14), ((1, 1), 27)], Some 10, Some 24) \<and>
   findCost (grid detour_map) (1, 1) = 13 \<and>
   map_option (\<lambda>s. findNeighbors detour_map 1 0 (visited s)) (astar_after detour_map 2) = Some [] \<and>
   map_option (\<lambda>s. (map (\<lambda>e. (element e, priority e)) (queue (frontier s)), cumulatedCost s (1, 1)))
     (astar_after detour_map 3) =
     Some ([((1, 1), 27)], Some 24)"
proof -
  from astar_after_inv [of detour_map 2]
  have h: "astar_after detour_map 2 = Some (the (astar_after detour_map 2))" by auto
  then have h': "dijkstra_after detour_map 2 = Some (the (astar_after detour_map 2)) \<or>
    astar_after detour_map 2 = Some (the (astar_after detour_map 2))" by simp
  have e1: "map_option (\<lambda>s. (map (\<lambda>e. (element e, priority e)) (queue (frontier s)),
                      cumulatedCost s (1, 0), cumulatedCost s (1, 1)))
     (astar_after detour_map 2) =
     Some ([((1, 0), 14), ((1, 1), 27)], Some 10, Some 24)"
    by code_simp
  have e2: "findCost (grid detour_map) (1, 1) = 13" by code_simp
  have e3: "map_option (\<lambda>s. findNeighbors detour_map 1 0 (visited s)) (astar_after detour_map 2) = Some []"
    by code_simp
  have e4: "map_option (\<lambda>s. (map (\<lambda>e. (element e, priority e)) (queue (frontier s)), cumulatedCost s (1, 1)))
     (astar_after detour_map 3) =
     Some ([((1, 1), 27)], Some 24)"
    by code_simp
  from visited_neighbor_never_readmitted [OF h', of 1 0] h' e1 e2 e3 e4
  show ?thesis by blast
qed

subsection \<open>A* against Dijkstra\<close>

text \<open>
  C8. On \<open>detour_map\<close> every cell that is not an obstacle has a weight of at least 1.
  \<open>dijkstra\<close> returns the path through \<open>(1, 0)\<close>, of total cost 37; \<open>astar\<close> returns the
  path through \<open>(2, 1)\<close>, of total cost 38.
\<close>

theorem astar_costlier_than_dijkstra:
  "wf_map detour_map \<and>
   list_all (list_all (\<lambda>c. type c = ''obstacle'' \<or> 1 \<le> weight c)) (grid detour_map) \<and>
   dijkstra detour_map = Some (Inr [(2, 3), (1, 3), (1, 2), (1, 1), (1, 0), (2, 0)]) \<and>
   path_cost detour_map [(2, 3), (1, 3), (1, 2), (1, 1), (1, 0), (2, 0)] = 37 \<and>
   astar detour_map = Some (Inr [(2, 3), (1, 3), (1, 2), (1, 1), (2, 1), (2, 0)]) \<and>
   path_cost detour_map [(2, 3), (1, 3), (1, 2), (1, 1), (2, 1), (2, 0)] = 38"
proof -
  have 1: "wf_map detour_map" by code_simp
  have 2: "list_all (list_all (\<lambda>c. type c = ''obstacle'' \<or> 1 \<le> weight c)) (grid detour_map)"
    by code_simp
  have 3: "dijkstra detour_map = Some (Inr [(2, 3), (1, 3), (1, 2), (1, 1), (1, 0), (2, 0)])"
    by code_simp
  have 4: "path_cost detour_map [(2, 3), (1, 3), (1, 2), (1, 1), (1, 0), (2, 0)] = 37"
    by code_simp
  have 5: "astar detour_map = Some (Inr [(2, 3), (1, 3), (1, 2), (1, 1), (2, 1), (2, 0)])"
    by code_simp
  have 6: "path_cost detour_map [(2, 3), (1, 3), (1, 2), (1, 1), (2, 1), (2, 0)] = 38"
    by code_simp
  from 1 2 3 4 5 6 show ?thesis by blast
qed

subsection \<open>An unreachable end cell\<close>

lemma pathReconstruct_unvisited_end:
  "endCell m \<noteq> startCell m \<Longrightarrow> v (endCell m) = None \<Longrightarrow>
   pathReconstruct v m = Some (Inl TypeError)"
  unfolding pathReconstruct_def
  by (subst pathReconstruct_while.simps) (simp add: equals_eq)

subsection \<open>Dijkstra finds the least cost\<close>

lemma nonneg_weightsD:
  "nonneg_weights m \<Longrightarrow> validate m (fst c) (snd c) \<Longrightarrow> 0 \<le> findCost (grid m) c"
  unfolding nonneg_weights_def by blast

lemma set_findNeighbors:
  "set (findNeighbors m x y v) =
     {d. adjacent (x, y) d \<and> validate m (fst d) (snd d) \<and> d \<notin> dom v}"
  unfolding findNeighbors_filter Let_def
  by (auto simp: visitCell_def adjacent_def)

lemma path_cost_Cons: "path_cost m (d # c # p) = findCost (grid m) d + path_cost m (c # p)"
  by (simp add: path_cost_def)

lemma path_cost_single: "path_cost m [c] = 0"
  by (simp add: path_cost_def)

lemma path_cost_nonneg:
  "nonneg_weights m \<Longrightarrow> back_path m p \<Longrightarrow> 0 \<le> path_cost m p"
proof (induction m p rule: back_path.induct)
  case (1 m)
  then show ?case by simp
next
  case (2 m c)
  then show ?case by (simp add: path_cost_single)
next
  case (3 m d c p)
  then show ?case using nonneg_weightsD [of m d] by (simp add: path_cost_Cons)
qed

lemma frontier_least:
  assumes "nonneg_weights m" and "costs_exact m s" and "dijkstra_inv m s"
    and "queue (frontier s) = e # es"
    and "back_path m (x # p)" and "x \<notin> expanded s"
  shows "priority e \<le> path_cost m (x # p)"
  using assms(5,6)
proof (induction p arbitrary: x)
  case Nil
  then have x: "x = startCell m" by simp
  then obtain k where k: "cumulatedCost s x = Some k"
    using assms(2) by (auto simp: costs_exact_def)
  with Nil.prems(2) obtain e' where e': "e' \<in> set (queue (frontier s))" "element e' = x"
    by (auto simp: expanded_def)
  then have "priority e' = k" using assms(3) k by (auto simp: dijkstra_inv_def)
  moreover have "priority e \<le> priority e'"
    using assms(3,4) e'(1) by (auto simp: dijkstra_inv_def)
  moreover have "k \<le> path_cost m [x]"
    using assms(2) k Nil.prems(1) unfolding costs_exact_def by blast
  ultimately show ?case by simp
next
  case (Cons c p)
  from Cons.prems(1) have adj: "adjacent c x" and val: "validate m (fst x) (snd x)"
    and bp: "back_path m (c # p)" by simp_all
  have w: "0 \<le> findCost (grid m) x" using assms(1) val by (rule nonneg_weightsD)
  show ?case
  proof (cases "c \<in> expanded s")
    case False
    from Cons.IH [OF bp False] w show ?thesis by (simp add: path_cost_Cons)
  next
    case True
    then have "x \<in> dom (cumulatedCost s)"
      using assms(3) adj val unfolding dijkstra_inv_def by blast
    then obtain k where k: "cumulatedCost s x = Some k" by auto
    with Cons.prems(2) obtain e' where e': "e' \<in> set (queue (frontier s))" "element e' = x"
      by (auto simp: expanded_def)
    then have "priority e' = k" using assms(3) k by (auto simp: dijkstra_inv_def)
    moreover have "priority e \<le> priority e'"
      using assms(3,4) e'(1) by (auto simp: dijkstra_inv_def)
    moreover have "k \<le> path_cost m (x # c # p)"
      using assms(2) k Cons.prems(1) unfolding costs_exact_def by blast
    ultimately show ?thesis by simp
  qed
qed

lemma costs_exact_path:
  "costs_exact m s \<Longrightarrow> cumulatedCost s c = Some k \<Longrightarrow>
   \<exists>p. back_path m (c # p) \<and> distinct (c # p) \<and>
       set (c # p) \<subseteq> dom (cumulatedCost s) \<and> path_cost m (c # p) = k"
  unfolding costs_exact_def by blast

lemma costs_exact_least:
  "costs_exact m s \<Longrightarrow> cumulatedCost s c = Some k \<Longrightarrow> back_path m (c # p) \<Longrightarrow>
   k \<le> path_cost m (c # p)"
  unfolding costs_exact_def by blast

lemma costs_exactI:
  assumes "startCell m \<in> dom (cumulatedCost s)"
    and "\<And>c k. cumulatedCost s c = Some k \<Longrightarrow>
           \<exists>p. back_path m (c # p) \<and> distinct (c # p) \<and>
               set (c # p) \<subseteq> dom (cumulatedCost s) \<and> path_cost m (c # p) = k"
    and "\<And>c k p. cumulatedCost s c = Some k \<Longrightarrow> back_path m (c # p) \<Longrightarrow>
           k \<le> path_cost m (c # p)"
  shows "costs_exact m s"
  unfolding costs_exact_def using assms by blast

lemma expand_costs_exact:
  assumes W: "nonneg_weights m" and fi: "frontier_inv s" and ce: "costs_exact m s"
    and di: "dijkstra_inv m s" and q: "queue (frontier s) = e # es"
    and k: "cumulatedCost s (element e) = Some k"
    and nbs: "nbs = findNeighbors m (fst (element e)) (snd (element e)) (visited s)"
  shows "costs_exact m (admitted m h (element e) k nbs (s\<lparr>frontier := (frontier s)\<lparr>queue := es\<rparr>\<rparr>))"
    (is "costs_exact m ?s'")
proof (rule costs_exactI)
  let ?D = "dom (cumulatedCost s)"
  have vd: "dom (visited s) = ?D" using fi by (simp add: frontier_inv_def)
  have nset: "set nbs = {d. adjacent (element e) d \<and> validate m (fst d) (snd d) \<and> d \<notin> ?D}"
    unfolding nbs set_findNeighbors vd by simp
  have cost': "cumulatedCost ?s' x =
      (if x \<in> set nbs then Some (k + findCost (grid m) x) else cumulatedCost s x)" for x
    by (simp add: admitted_def)
  have dom': "dom (cumulatedCost ?s') = ?D \<union> set nbs"
    by (auto simp: cost' dom_def)
  have pe: "priority e = k" using di q k by (auto simp: dijkstra_inv_def)
  show "startCell m \<in> dom (cumulatedCost ?s')"
    using ce unfolding dom' costs_exact_def by blast
  show "\<exists>p. back_path m (c # p) \<and> distinct (c # p) \<and>
            set (c # p) \<subseteq> dom (cumulatedCost ?s') \<and> path_cost m (c # p) = k'"
    if c: "cumulatedCost ?s' c = Some k'" for c k'
  proof (cases "c \<in> set nbs")
    case True
    then have k': "k' = k + findCost (grid m) c" using c by (simp add: cost')
    from costs_exact_path [OF ce k] obtain p where
      p: "back_path m (element e # p)" "distinct (element e # p)"
         "set (element e # p) \<subseteq> ?D" "path_cost m (element e # p) = k" by blast
    have "c \<notin> ?D" using True nset by simp
    then have "distinct (c # element e # p)" using p(2,3) by auto
    moreover have "back_path m (c # element e # p)" using True nset p(1) by simp
    moreover have "set (c # element e # p) \<subseteq> dom (cumulatedCost ?s')"
      using True p(3) unfolding dom' by auto
    moreover have "path_cost m (c # element e # p) = k'"
      using p(4) k' by (simp add: path_cost_Cons)
    ultimately show ?thesis by blast
  next
    case False
    then have "cumulatedCost s c = Some k'" using c by (simp add: cost')
    from costs_exact_path [OF ce this] show ?thesis unfolding dom' by blast
  qed
  show "k' \<le> path_cost m (c # p)"
    if c: "cumulatedCost ?s' c = Some k'" and bp: "back_path m (c # p)" for c k' p
  proof (cases "c \<in> set nbs")
    case False
    then have "cumulatedCost s c = Some k'" using c by (simp add: cost')
    from costs_exact_least [OF ce this bp] show ?thesis .
  next
    case True
    then have k': "k' = k + findCost (grid m) c" using c by (simp add: cost')
    have fresh: "c \<notin> ?D" using True nset by simp
    show ?thesis
    proof (cases p)
      case Nil
      with bp have "c = startCell m" by simp
      with fresh ce show ?thesis by (simp add: costs_exact_def)
    next
      case (Cons x p')
      with bp have adj: "adjacent x c" and val: "validate m (fst c) (snd c)"
        and bp': "back_path m (x # p')" by simp_all
      have "x \<notin> expanded s"
      proof
        assume "x \<in> expanded s"
        then have "c \<in> ?D" using di adj val unfolding dijkstra_inv_def by blast
        with fresh show False by simp
      qed
      from frontier_least [OF W ce di q bp' this] pe k' Cons
      show ?thesis by (simp add: path_cost_Cons)
    qed
  qed
qed

lemma expand_dijkstra_inv:
  assumes W: "nonneg_weights m" and fi: "frontier_inv s"
    and di: "dijkstra_inv m s" and q: "queue (frontier s) = e # es"
    and k: "cumulatedCost s (element e) = Some k"
    and nbs: "nbs = findNeighbors m (fst (element e)) (snd (element e)) (visited s)"
  shows "dijkstra_inv m (admitted m (\<lambda>nb. 0) (element e) k nbs (s\<lparr>frontier := (frontier s)\<lparr>queue := es\<rparr>\<rparr>))"
    (is "dijkstra_inv m ?s'")
proof -
  let ?D = "dom (cumulatedCost s)"
  let ?item = "\<lambda>nb. \<lparr>element = nb, priority = k + findCost (grid m) nb + 0\<rparr>"
  have vd: "dom (visited s) = ?D" using fi by (simp add: frontier_inv_def)
  have nset: "set nbs = {d. adjacent (element e) d \<and> validate m (fst d) (snd d) \<and> d \<notin> ?D}"
    unfolding nbs set_findNeighbors vd by simp
  have cost': "cumulatedCost ?s' x =
      (if x \<in> set nbs then Some (k + findCost (grid m) x) else cumulatedCost s x)" for x
    by (simp add: admitted_def)
  have dom': "dom (cumulatedCost ?s') = ?D \<union> set nbs"
    by (auto simp: cost' dom_def)
  have qs': "set (queue (frontier ?s')) = set es \<union> ?item ` set nbs"
    by (simp add: admitted_def set_enqueue_all)
  have pe: "priority e = k" using di q k by (auto simp: dijkstra_inv_def)
  have esD: "element ` set es \<subseteq> ?D" using fi q by (auto simp: frontier_inv_def)
  have c0: "element e \<notin> element ` set es" using fi q by (auto simp: frontier_inv_def)
  have c0D: "element e \<in> ?D" using k by auto
  have "element ` (set es \<union> ?item ` set nbs) = element ` set es \<union> set nbs"
    by (auto simp: image_Un image_image)
  then have "expanded ?s' = (?D \<union> set nbs) - (element ` set es \<union> set nbs)"
    unfolding expanded_def dom' qs' by simp
  also have "\<dots> = insert (element e) (expanded s)"
  proof -
    have E: "element ` set (queue (frontier s)) = insert (element e) (element ` set es)"
      using q by simp
    have nD: "set nbs \<inter> ?D = {}" using nset by auto
    have "(D \<union> N) - (E \<union> N) = insert c (D - insert c E)"
      if "c \<in> D" "c \<notin> E" "N \<inter> D = {}" for c :: coord and D E N
      using that by auto
    from this [OF c0D c0 nD] show ?thesis unfolding expanded_def E .
  qed
  finally have exp': "expanded ?s' = insert (element e) (expanded s)" .
  have sorted_es: "sorted (map priority (e # es))" using di q by (simp add: dijkstra_inv_def)
  have I2: "\<forall>e' \<in> set (queue (frontier ?s')). cumulatedCost ?s' (element e') = Some (priority e')"
  proof
    fix e' assume "e' \<in> set (queue (frontier ?s'))"
    then consider "e' \<in> set es" | nb where "nb \<in> set nbs" "e' = ?item nb"
      unfolding qs' by blast
    then show "cumulatedCost ?s' (element e') = Some (priority e')"
    proof cases
      case 1
      then have "element e' \<notin> set nbs" using esD nset by auto
      moreover have "cumulatedCost s (element e') = Some (priority e')"
        using di q 1 by (simp add: dijkstra_inv_def)
      ultimately show ?thesis by (simp add: cost')
    next
      case 2
      then show ?thesis by (simp add: cost')
    qed
  qed
  have I3: "sorted (map priority (queue (frontier ?s')))"
    using sorted_es by (simp add: admitted_def sorted_enqueue_all)
  have I5: "\<forall>c \<in> expanded ?s'. \<forall>d. adjacent c d \<and> validate m (fst d) (snd d) \<longrightarrow>
      d \<in> dom (cumulatedCost ?s')"
  proof (intro ballI allI impI)
    fix c d assume c: "c \<in> expanded ?s'" and d: "adjacent c d \<and> validate m (fst d) (snd d)"
    show "d \<in> dom (cumulatedCost ?s')"
    proof (cases "c = element e")
      case True
      with d nset show ?thesis unfolding dom' by blast
    next
      case False
      with c exp' have "c \<in> expanded s" by simp
      with di d have "d \<in> ?D" unfolding dijkstra_inv_def by blast
      then show ?thesis unfolding dom' by simp
    qed
  qed
  have low: "k \<le> priority e'" if "e' \<in> set (queue (frontier ?s'))" for e'
  proof -
    from that consider "e' \<in> set es" | nb where "nb \<in> set nbs" "e' = ?item nb"
      unfolding qs' by blast
    then show ?thesis
    proof cases
      case 1
      with sorted_es pe show ?thesis by auto
    next
      case 2
      then have "validate m (fst nb) (snd nb)" using nset by simp
      from nonneg_weightsD [OF W this] 2 show ?thesis by simp
    qed
  qed
  have I6: "\<forall>c \<in> expanded ?s'. \<forall>k'. cumulatedCost ?s' c = Some k' \<longrightarrow>
      (\<forall>e' \<in> set (queue (frontier ?s')). k' \<le> priority e')"
  proof (intro ballI allI impI)
    fix c k' e'
    assume c: "c \<in> expanded ?s'" and k': "cumulatedCost ?s' c = Some k'"
      and e': "e' \<in> set (queue (frontier ?s'))"
    have "c \<in> insert (element e) (expanded s)" using c unfolding exp' .
    then have cD: "c \<in> ?D" using c0D by (auto simp: expanded_def)
    then have "c \<notin> set nbs" using nset by simp
    then have old: "cumulatedCost s c = Some k'" using k' by (simp add: cost')
    have "k' \<le> k"
    proof (cases "c = element e")
      case True
      with old k show ?thesis by simp
    next
      case False
      with c exp' have "c \<in> expanded s" by simp
      with di old q have "k' \<le> priority e" unfolding dijkstra_inv_def by auto
      with pe show ?thesis by simp
    qed
    with low [OF e'] show "k' \<le> priority e'" by simp
  qed
  from I2 I3 I5 I6 show ?thesis unfolding dijkstra_inv_def by blast
qed

lemma costs_exact_cong:
  "cumulatedCost s' = cumulatedCost s \<Longrightarrow> costs_exact m s' = costs_exact m s"
  by (simp add: costs_exact_def)

lemma dijkstra_loop_inv_init:
  assumes "nonneg_weights m"
  shows "dijkstra_loop_inv m (search_init m)"
proof -
  let ?s = "search_init m"
  have c: "cumulatedCost ?s = [startCell m \<mapsto> 0]" by (simp add: search_init_def)
  have q: "queue (frontier ?s) = [\<lparr>element = startCell m, priority = 0\<rparr>]"
    by (simp add: search_init_def enqueue_def new_PriorityQueue_def)
  have "costs_exact m ?s"
  proof (rule costs_exactI)
    show "startCell m \<in> dom (cumulatedCost ?s)" by (simp add: c)
    show "\<exists>p. back_path m (x # p) \<and> distinct (x # p) \<and>
            set (x # p) \<subseteq> dom (cumulatedCost ?s) \<and> path_cost m (x # p) = k"
      if "cumulatedCost ?s x = Some k" for x k
    proof -
      from that have "x = startCell m" "k = 0" by (auto simp: c split: if_splits)
      then show ?thesis by (intro exI [of _ "[]"]) (simp add: c path_cost_single)
    qed
    show "k \<le> path_cost m (x # p)"
      if "cumulatedCost ?s x = Some k" and "back_path m (x # p)" for x k p
    proof -
      from that(1) have "k = 0" by (auto simp: c split: if_splits)
      with path_cost_nonneg [OF assms that(2)] show ?thesis by simp
    qed
  qed
  moreover have "expanded ?s = {}" by (simp add: expanded_def c q)
  then have "dijkstra_inv m ?s" by (simp add: dijkstra_inv_def c q)
  ultimately show ?thesis by (simp add: dijkstra_loop_inv_def frontier_inv_init)
qed

lemma dijkstra_step_loop_inv:
  assumes W: "nonneg_weights m" and J: "dijkstra_loop_inv m s" and ne: "\<not> isEmpty (frontier s)"
  shows "\<exists>s'. dijkstra_step m s = Some s' \<and> dijkstra_loop_inv m s'"
proof -
  from ne obtain e es where q: "queue (frontier s) = e # es"
    by (cases "queue (frontier s)") (auto simp: isEmpty_def)
  from J q have fi: "frontier_inv s" and ce: "costs_exact m s" and di: "dijkstra_inv m s"
    by (auto simp: dijkstra_loop_inv_def)
  let ?nbs = "findNeighbors m (fst (element e)) (snd (element e)) (visited s)"
  let ?pop = "s\<lparr>frontier := (frontier s)\<lparr>queue := es\<rparr>\<rparr>"
  from dijkstra_step_fresh [OF fi q, of m] obtain k where
    k: "cumulatedCost s (element e) = Some k" and
    st: "dijkstra_step m s =
       Some (if equals (element e) (endCell m) then s\<lparr>frontier := new_PriorityQueue\<rparr>
             else admitted m (\<lambda>nb. 0) (element e) k ?nbs ?pop)" by blast
  show ?thesis
  proof (cases "equals (element e) (endCell m)")
    case True
    let ?s' = "s\<lparr>frontier := new_PriorityQueue\<rparr>"
    have "endCell m \<in> dom (cumulatedCost ?s')" using True k by (auto simp: equals_eq)
    moreover have "costs_exact m ?s'" using ce costs_exact_cong [of ?s' s m] by simp
    moreover have "queue (frontier ?s') = []" by (simp add: new_PriorityQueue_def)
    ultimately have "dijkstra_loop_inv m ?s'"
      using frontier_inv_discard [OF fi] by (simp add: dijkstra_loop_inv_def)
    with st True show ?thesis by simp
  next
    case False
    let ?s' = "admitted m (\<lambda>nb. 0) (element e) k ?nbs ?pop"
    have "frontier_inv ?s'"
      using findNeighbors_fresh [of m _ _ "visited s"] fi
      by (intro frontier_inv_admitted frontier_inv_pop [OF fi q] findNeighbors_distinct)
         (simp add: frontier_inv_def)
    moreover have "costs_exact m ?s'"
      by (rule expand_costs_exact [OF W fi ce di q k refl])
    moreover have "dijkstra_inv m ?s'"
      by (rule expand_dijkstra_inv [OF W fi di q k refl])
    ultimately have "dijkstra_loop_inv m ?s'" by (simp add: dijkstra_loop_inv_def)
    with st False show ?thesis by simp
  qed
qed

lemma dijkstra_loop_keeps_inv:
  "nonneg_weights m \<Longrightarrow> dijkstra_loop_inv m s \<Longrightarrow>
   \<exists>s'. dijkstra_loop m s = Some s' \<and> dijkstra_loop_inv m s' \<and> queue (frontier s') = []"
proof (induction m s rule: dijkstra_loop.induct)
  case (1 m s)
  show ?case
  proof (cases "isEmpty (frontier s)")
    case True
    with "1.prems" show ?thesis by (simp add: dijkstra_loop.simps isEmpty_def)
  next
    case False
    from dijkstra_step_loop_inv [OF "1.prems" False] obtain s1 where
      s1: "dijkstra_step m s = Some s1" and J1: "dijkstra_loop_inv m s1" by blast
    from "1.IH" [OF False s1 "1.prems"(1) J1] obtain s' where
      "dijkstra_loop m s1 = Some s'" "dijkstra_loop_inv m s'" "queue (frontier s') = []" by blast
    moreover have "dijkstra_loop m s = dijkstra_loop m s1"
      using False s1 by (subst dijkstra_loop.simps) simp
    ultimately show ?thesis by simp
  qed
qed

lemma drained_covers_paths:
  assumes "dijkstra_inv m s" and "queue (frontier s) = []"
    and "startCell m \<in> dom (cumulatedCost s)"
  shows "back_path m (c # p) \<Longrightarrow> c \<in> dom (cumulatedCost s)"
proof (induction p arbitrary: c)
  case Nil
  with assms(3) show ?case by simp
next
  case (Cons x p)
  then have "x \<in> dom (cumulatedCost s)" by simp
  then have x: "x \<in> expanded s" using assms(2) by (simp add: expanded_def)
  from Cons.prems have "adjacent x c \<and> validate m (fst c) (snd c)" by simp
  with assms(1) x show ?case unfolding dijkstra_inv_def by blast
qed

lemma grid_cell_all:
  assumes "wf_map m" and "list_all (list_all P) (grid m)" and "isBound m x y"
  shows "P (grid m ! nat x ! nat y)"
proof -
  from assms(1,3) have x: "nat x < length (grid m)"
    by (auto simp: wf_map_def isBound_def)
  then have row: "grid m ! nat x \<in> set (grid m)" by simp
  with assms(1) have "length (grid m ! nat x) = nat (mapSize m)"
    by (auto simp: wf_map_def list_all_iff)
  with assms(3) have "nat y < length (grid m ! nat x)" by (auto simp: isBound_def)
  then have "grid m ! nat x ! nat y \<in> set (grid m ! nat x)" by simp
  with row assms(2) show ?thesis by (auto simp: list_all_iff)
qed

text \<open>
  C1. On a well-formed grid in which no passable cell has a negative weight (in particular
  when all weights are at least 1) and in which some path leads from the start cell to the
  end cell, the loop of \<open>dijkstra\<close> ends, and the cost it has then recorded for the end
  cell is the least cost of a path from the start cell to the end cell: it is the cost of
  such a path, one that passes through no cell twice, and no path from the start cell to
  the end cell costs less.
\<close>

theorem dijkstra_cost_is_minimum:
  assumes "wf_map m"
    and "list_all (list_all (\<lambda>c. type c \<noteq> ''obstacle'' \<longrightarrow> 0 \<le> weight c)) (grid m)"
    and "back_path m (endCell m # route)"
  shows "\<exists>s k. dijkstra_loop m (search_init m) = Some s \<and>
           cumulatedCost s (endCell m) = Some k \<and>
           (\<exists>p. back_path m (endCell m # p) \<and> distinct (endCell m # p) \<and>
                path_cost m (endCell m # p) = k) \<and>
           (\<forall>p. back_path m (endCell m # p) \<longrightarrow> k \<le> path_cost m (endCell m # p))"
proof -
  have W: "nonneg_weights m"
    unfolding nonneg_weights_def
  proof (intro allI impI)
    fix c assume v: "validate m (fst c) (snd c)"
    then have "isBound m (fst c) (snd c)" by (simp add: validate_def)
    from grid_cell_all [OF assms(1,2) this] v show "0 \<le> findCost (grid m) c"
      by (simp add: validate_def findCost_def)
  qed
  from dijkstra_loop_keeps_inv [OF W dijkstra_loop_inv_init [OF W]] obtain s where
    run: "dijkstra_loop m (search_init m) = Some s" and J: "dijkstra_loop_inv m s"
    and empty: "queue (frontier s) = []" by blast
  from J have ce: "costs_exact m s" by (simp add: dijkstra_loop_inv_def)
  then have start: "startCell m \<in> dom (cumulatedCost s)" by (simp add: costs_exact_def)
  have "endCell m \<in> dom (cumulatedCost s)"
  proof (cases "dijkstra_inv m s")
    case True
    from drained_covers_paths [OF True empty start assms(3)] show ?thesis .
  next
    case False
    with J show ?thesis by (simp add: dijkstra_loop_inv_def)
  qed
  then obtain k where k: "cumulatedCost s (endCell m) = Some k" by auto
  from costs_exact_path [OF ce k] have a: "\<exists>p. back_path m (endCell m # p) \<and>
      distinct (endCell m # p) \<and> path_cost m (endCell m # p) = k" by blast
  have b: "\<forall>p. back_path m (endCell m # p) \<longrightarrow> k \<le> path_cost m (endCell m # p)"
    using costs_exact_least [OF ce k] by blast
  show ?thesis
    apply (rule exI [of _ s])
    apply (rule exI [of _ k])
    apply (intro conjI run k a b)
    done
qed

theorem dijkstra_cost_is_minimum_witness:
  "wf_map detour_map \<and>
   list_all (list_all (\<lambda>c. type c \<noteq> ''obstacle'' \<longrightarrow> 0 \<le> weight c)) (grid detour_map) \<and>
   back_path detour_map (endCell detour_map # [(1, 3), (1, 2), (1, 1), (2, 1), (2, 0)]) \<and>
   map_option (\<lambda>s. cumulatedCost s (endCell detour_map))
     (dijkstra_loop detour_map (search_init detour_map)) = Some (Some 37) \<and>
   37 \<le> path_cost detour_map (endCell detour_map # [(1, 3), (1, 2), (1, 1), (2, 1), (2, 0)])"
proof -
  have h1: "wf_map detour_map" by code_simp
  have h2: "list_all (list_all (\<lambda>c. type c \<noteq> ''obstacle'' \<longrightarrow> 0 \<le> weight c)) (grid detour_map)"
    by code_simp
  have h3: "back_path detour_map (endCell detour_map # [(1, 3), (1, 2), (1, 1), (2, 1), (2, 0)])"
    by code_simp
  have ev: "map_option (\<lambda>s. cumulatedCost s (endCell detour_map))
     (dijkstra_loop detour_map (search_init detour_map)) = Some (Some 37)"
    by code_simp
  from dijkstra_cost_is_minimum [OF h1 h2 h3] obtain s k where
    run: "dijkstra_loop detour_map (search_init detour_map) = Some s"
    and k: "cumulatedCost s (endCell detour_map) = Some k"
    and least: "\<forall>p. back_path detour_map (endCell detour_map # p) \<longrightarrow>
                  k \<le> path_cost detour_map (endCell detour_map # p)"
    by blast
  from ev run k have "k = 37" by simp
  with least h3 have "37 \<le> path_cost detour_map
      (endCell detour_map # [(1, 3), (1, 2), (1, 1), (2, 1), (2, 0)])" by blast
  with h1 h2 h3 ev show ?thesis by blast
qed

subsection \<open>An enclosed end cell\<close>

lemma adjacent_sym: "adjacent c d \<longleftrightarrow> adjacent d c"
  by (cases c, cases d) (auto simp: adjacent_def)

lemma enclosed_adjacent:
  "enclosed m \<Longrightarrow> adjacent c (endCell m) \<Longrightarrow>
   \<not> validate m (fst c) (snd c) \<and> c \<noteq> startCell m"
  unfolding adjacent_sym [of c] by (auto simp: enclosed_def adjacent_def)

lemma no_way_in_expand:
  assumes enc: "enclosed m" and inv: "no_way_in m v (insert c front)"
    and nbs: "nbs = findNeighbors m (fst c) (snd c) v"
    and v': "dom v' = dom v \<union> set nbs"
  shows "no_way_in m v' (front \<union> set nbs)"
proof -
  have nset: "set nbs = {d. adjacent c d \<and> validate m (fst d) (snd d) \<and> d \<notin> dom v}"
    unfolding nbs set_findNeighbors by simp
  have "endCell m \<notin> set nbs"
  proof
    assume "endCell m \<in> set nbs"
    then have "adjacent c (endCell m)" using nset by simp
    from enclosed_adjacent [OF enc this] inv show False by (simp add: no_way_in_def)
  qed
  with inv nset show ?thesis unfolding no_way_in_def v' by auto
qed

lemma no_way_in_bfs_step:
  assumes "enclosed m" and "no_way_in m (bfs_visited s) (set (bfs_frontier s))"
    and "bfs_frontier s \<noteq> []"
  shows "no_way_in m (bfs_visited (bfs_step m s)) (set (bfs_frontier (bfs_step m s)))"
proof -
  from assms(3) obtain c rest where f: "bfs_frontier s = c # rest"
    by (cases "bfs_frontier s") auto
  have "c \<noteq> endCell m" using assms(2) f by (auto simp: no_way_in_def)
  then have ne: "\<not> equals c (endCell m)" by (simp add: equals_eq)
  then have p: "bfs_step_pushes m s = findNeighbors m (fst c) (snd c) (bfs_visited s)"
    using f by (simp add: bfs_step_pushes_def)
  have 1: "no_way_in m (bfs_visited s) (insert c (set rest))" using assms(2) f by simp
  have "no_way_in m (bfs_visited (bfs_step m s)) (set rest \<union> set (bfs_step_pushes m s))"
    by (rule no_way_in_expand [OF assms(1) 1 p bfs_step_dom])
  then show ?thesis using ne by (simp add: bfs_step_frontier [OF f])
qed

lemma no_way_in_bfs_loop:
  "enclosed m \<Longrightarrow> no_way_in m (bfs_visited s) (set (bfs_frontier s)) \<Longrightarrow>
   endCell m \<notin> dom (bfs_visited (bfs_loop m s)) \<and> bfs_frontier (bfs_loop m s) = []"
proof (induction m s rule: bfs_loop.induct)
  case (1 m s)
  show ?case
  proof (cases "length (bfs_frontier s) = 0")
    case True
    with "1.prems"(2) show ?thesis by (simp add: bfs_loop.simps no_way_in_def)
  next
    case False
    then have ne: "bfs_frontier s \<noteq> []" by simp
    have "bfs_loop m s = bfs_loop m (bfs_step m s)"
      using False by (subst bfs_loop.simps) simp
    with "1.IH" [OF False "1.prems"(1) no_way_in_bfs_step [OF "1.prems" ne]]
    show ?thesis by simp
  qed
qed

lemma no_way_in_search_step:
  assumes enc: "enclosed m" and fi: "frontier_inv s"
    and inv: "no_way_in m (visited s) (element ` set (queue (frontier s)))"
    and q: "queue (frontier s) = e # es"
  shows "\<not> equals (element e) (endCell m) \<and>
         no_way_in m (visited (admitted m h (element e) k
             (findNeighbors m (fst (element e)) (snd (element e)) (visited s))
             (s\<lparr>frontier := (frontier s)\<lparr>queue := es\<rparr>\<rparr>)))
           (element ` set (queue (frontier (admitted m h (element e) k
             (findNeighbors m (fst (element e)) (snd (element e)) (visited s))
             (s\<lparr>frontier := (frontier s)\<lparr>queue := es\<rparr>\<rparr>)))))"
proof -
  let ?nbs = "findNeighbors m (fst (element e)) (snd (element e)) (visited s)"
  let ?s' = "admitted m h (element e) k ?nbs (s\<lparr>frontier := (frontier s)\<lparr>queue := es\<rparr>\<rparr>)"
  have "element e \<noteq> endCell m" using inv q by (auto simp: no_way_in_def)
  then have ne: "\<not> equals (element e) (endCell m)" by (simp add: equals_eq)
  have 1: "no_way_in m (visited s) (insert (element e) (element ` set es))"
    using inv q by simp
  have d: "dom (visited ?s') = dom (visited s) \<union> set ?nbs"
    by (auto simp: admitted_def dom_def)
  have "element ` set (queue (frontier ?s')) = element ` set es \<union> set ?nbs"
    by (simp add: admitted_def set_enqueue_all image_Un image_image)
  with no_way_in_expand [OF enc 1 refl d] ne show ?thesis by simp
qed

lemma no_way_in_dijkstra_loop:
  "enclosed m \<Longrightarrow> frontier_inv s \<Longrightarrow>
   no_way_in m (visited s) (element ` set (queue (frontier s))) \<Longrightarrow>
   \<exists>s'. dijkstra_loop m s = Some s' \<and> endCell m \<notin> dom (visited s') \<and> queue (frontier s') = []"
proof (induction m s rule: dijkstra_loop.induct)
  case (1 m s)
  show ?case
  proof (cases "isEmpty (frontier s)")
    case True
    with "1.prems"(3) show ?thesis by (simp add: dijkstra_loop.simps no_way_in_def isEmpty_def)
  next
    case False
    then obtain e es where q: "queue (frontier s) = e # es"
      by (cases "queue (frontier s)") (auto simp: isEmpty_def)
    from dijkstra_step_inv [OF "1.prems"(2) False, of m] obtain s1 where
      s1: "dijkstra_step m s = Some s1" and fi1: "frontier_inv s1" by blast
    from dijkstra_step_fresh [OF "1.prems"(2) q, of m] obtain k where
      st: "dijkstra_step m s =
       Some (if equals (element e) (endCell m) then s\<lparr>frontier := new_PriorityQueue\<rparr>
             else admitted m (\<lambda>nb. 0) (element e) k
                    (findNeighbors m (fst (element e)) (snd (element e)) (visited s))
                    (s\<lparr>frontier := (frontier s)\<lparr>queue := es\<rparr>\<rparr>))" by blast
    note n = no_way_in_search_step [OF "1.prems"(1,2,3) q, of "\<lambda>nb. 0" k]
    from n st s1 have "no_way_in m (visited s1) (element ` set (queue (frontier s1)))" by simp
    from "1.IH" [OF False s1 "1.prems"(1) fi1 this] s1 False show ?thesis
      by (subst dijkstra_loop.simps) simp
  qed
qed

lemma no_way_in_astar_loop:
  "enclosed m \<Longrightarrow> frontier_inv s \<Longrightarrow>
   no_way_in m (visited s) (element ` set (queue (frontier s))) \<Longrightarrow>
   \<exists>s'. astar_loop m s = Some s' \<and> endCell m \<notin> dom (visited s') \<and> queue (frontier s') = []"
proof (induction m s rule: astar_loop.induct)
  case (1 m s)
  show ?case
  proof (cases "isEmpty (frontier s)")
    case True
    with "1.prems"(3) show ?thesis by (simp add: astar_loop.simps no_way_in_def isEmpty_def)
  next
    case False
    then obtain e es where q: "queue (frontier s) = e # es"
      by (cases "queue (frontier s)") (auto simp: isEmpty_def)
    from astar_step_inv [OF "1.prems"(2) False, of m] obtain s1 where
      s1: "astar_step m s = Some s1" and fi1: "frontier_inv s1" by blast
    from astar_step_fresh [OF "1.prems"(2) q, of m] obtain k where
      st: "astar_step m s =
       Some (if equals (element e) (endCell m) then s\<lparr>frontier := new_PriorityQueue\<rparr>
             else admitted m (heuristic (endCell m)) (element e) k
                    (findNeighbors m (fst (element e)) (snd (element e)) (visited s))
                    (s\<lparr>frontier := (frontier s)\<lparr>queue := es\<rparr>\<rparr>))" by blast
    note n = no_way_in_search_step [OF "1.prems"(1,2,3) q, of "heuristic (endCell m)" k]
    from n st s1 have "no_way_in m (visited s1) (element ` set (queue (frontier s1)))" by simp
    from "1.IH" [OF False s1 "1.prems"(1) fi1 this] s1 False show ?thesis
      by (subst astar_loop.simps) simp
  qed
qed

lemma no_way_in_search_init:
  "enclosed m \<Longrightarrow>
   no_way_in m (visited (search_init m)) (element ` set (queue (frontier (search_init m))))"
  by (simp add: no_way_in_def search_init_def enqueue_def new_PriorityQueue_def enclosed_def)

lemma no_way_in_bfs_init:
  "enclosed m \<Longrightarrow> no_way_in m (bfs_visited (bfs_init m)) (set (bfs_frontier (bfs_init m)))"
  by (simp add: no_way_in_def bfs_init_def enclosed_def)

text \<open>
  C7. On every well-formed grid on which the end cell is enclosed, each of the three
  searches drains its frontier without visiting the end cell; the callback then calls
  \<open>pathReconstruct\<close>, which reads the predecessor of the end cell, finds
  \<open>undefined\<close>, and raises a \<open>TypeError\<close>. The run ends with this exception, not
  with a result that says there is no path.
\<close>

theorem enclosed_goal_raises:
  assumes "wf_map m" and "enclosed m"
  shows "bfs_frontier (bfs_loop m (bfs_init m)) = [] \<and>
         bfs m = Some (Inl TypeError) \<and>
         dijkstra m = Some (Inl TypeError) \<and>
         astar m = Some (Inl TypeError)"
proof -
  have ne: "endCell m \<noteq> startCell m" using assms(2) by (simp add: enclosed_def)
  from no_way_in_bfs_loop [OF assms(2) no_way_in_bfs_init [OF assms(2)]]
  have b: "bfs_visited (bfs_loop m (bfs_init m)) (endCell m) = None"
    and bf: "bfs_frontier (bfs_loop m (bfs_init m)) = []" by auto
  from no_way_in_dijkstra_loop [OF assms(2) frontier_inv_init no_way_in_search_init [OF assms(2)]]
  obtain sd where d: "dijkstra_loop m (search_init m) = Some sd" "visited sd (endCell m) = None"
    by auto
  from no_way_in_astar_loop [OF assms(2) frontier_inv_init no_way_in_search_init [OF assms(2)]]
  obtain sa where a: "astar_loop m (search_init m) = Some sa" "visited sa (endCell m) = None"
    by auto
  have "bfs m = Some (Inl TypeError)"
    unfolding bfs_def
    using pathReconstruct_unvisited_end [of m "bfs_visited (bfs_loop m (bfs_init m))"] ne b
    by simp
  moreover have "dijkstra m = Some (Inl TypeError)"
    using pathReconstruct_unvisited_end [of m "visited sd"] ne d by (simp add: dijkstra_def)
  moreover have "astar m = Some (Inl TypeError)"
    using pathReconstruct_unvisited_end [of m "visited sa"] ne a by (simp add: astar_def)
  ultimately show ?thesis using bf by simp
qed

theorem enclosed_goal_raises_witness:
  "wf_map enclosed_map \<and> enclosed enclosed_map \<and>
   bfs_visited (bfs_loop enclosed_map (bfs_init enclosed_map)) (2, 2) = None \<and>
   map_option (\<lambda>s. (queue (frontier s), visited s (2, 2)))
     (dijkstra_loop enclosed_map (search_init enclosed_map)) = Some ([], None) \<and>
   bfs_frontier (bfs_loop enclosed_map (bfs_init enclosed_map)) = [] \<and>
   bfs enclosed_map = Some (Inl TypeError) \<and>
   dijkstra enclosed_map = Some (Inl TypeError) \<and>
   astar enclosed_map = Some (Inl TypeError)"
proof -
  have h1: "wf_map enclosed_map" by code_simp
  have h2: "enclosed enclosed_map" by code_simp
  have e1: "bfs_visited (bfs_loop enclosed_map (bfs_init enclosed_map)) (2, 2) = None"
    by code_simp
  have e2: "map_option (\<lambda>s. (queue (frontier s), visited s (2, 2)))
     (dijkstra_loop enclosed_map (search_init enclosed_map)) = Some ([], None)"
    by code_simp
  from enclosed_goal_raises [OF h1 h2] h1 h2 e1 e2 show ?thesis by blast
qed

end
